theory Spec2Isabelle
  imports
    Main
    "HOL-Library.Word"
    "HOL-Library.Signed_Division"
    "HOL-Library.Sublist"
    "HOL-Library.Multiset"
begin

section \<open>Go values shared by the packages\<close>

text \<open>
  Go's \<^verbatim>\<open>int\<close> and \<^verbatim>\<open>time.Duration\<close> are 64-bit two's complement integers on the
  platforms the service is built for: arithmetic wraps, comparisons are signed
  (\<open>\<le>s\<close>, \<open><s\<close>), \<open>sint\<close> reads the value.
\<close>

type_synonym go_int = "64 word"
type_synonym Duration = "64 word"

text \<open>
  An \<^verbatim>\<open>error\<close> value. \<^verbatim>\<open>errors.New\<close> and \<^verbatim>\<open>fmt.Errorf\<close> without \<^verbatim>\<open>%w\<close> build a plain
  message; \<^verbatim>\<open>fmt.Errorf\<close> with \<^verbatim>\<open>%w\<close> builds a message that also keeps the wrapped
  cause. The only thing a caller of another package can observe of the values built by
  \<^verbatim>\<open>errors.New\<close> inside a function is the text returned by \<^verbatim>\<open>Error()\<close>.
\<close>

datatype go_error = ErrorString string | WrapError string go_error

fun Error :: "go_error \<Rightarrow> string" where
  "Error (ErrorString s) = s"
| "Error (WrapError s cause) = s"

definition errors_New :: "string \<Rightarrow> go_error" where
  "errors_New s = ErrorString s"

text \<open>
  An instant is a number of nanoseconds on the process clock. \<^verbatim>\<open>time.Since(t)\<close> is
  \<^verbatim>\<open>time.Now().Sub(t)\<close>, which saturates at the largest and smallest \<^verbatim>\<open>Duration\<close>.
\<close>

type_synonym Time = int

definition maxDuration :: int where
  "maxDuration = 2 ^ 63 - 1"

definition minDuration :: int where
  "minDuration = - (2 ^ 63)"

definition time_Sub :: "Time \<Rightarrow> Time \<Rightarrow> Duration" where
  "time_Sub t u =
     (let d = t - u in
      if maxDuration < d then word_of_int maxDuration
      else if d < minDuration then word_of_int minDuration
      else word_of_int d)"

text \<open>
  What a function literal of type \<^verbatim>\<open>func() error\<close> can touch: the clock (it takes time
  to run) and the variables it captures or the outside world it talks to (\<open>vars\<close>).
  A wrapped function is a state transformer on this record that also returns its error
  (\<open>None\<close> is \<^verbatim>\<open>nil\<close>).
\<close>

record 'v world =
  clock :: Time
  vars :: 'v

type_synonym 'v go_func = "'v world \<Rightarrow> go_error option \<times> 'v world"

definition time_Since :: "'v world \<Rightarrow> Time \<Rightarrow> Duration" where
  "time_Since w t = time_Sub (clock w) t"

section \<open>Package circuitbreaker\<close>

datatype CircuitState = CircuitStateClosed | CircuitStateOpen | CircuitStateHalfOpen

record CircuitBreaker =
  maxFailures :: go_int
  resetTimeout :: Duration
  halfOpenTimeout :: Duration
  state :: CircuitState
  failureCount :: go_int
  lastFailureTime :: Time
  successCount :: go_int

text \<open>The zero \<^verbatim>\<open>time.Time\<close> is instant 0 of the model's clock.\<close>

definition NewCircuitBreaker :: "go_int \<Rightarrow> Duration \<Rightarrow> CircuitBreaker" where
  "NewCircuitBreaker maxFailures' resetTimeout' =
     \<lparr> maxFailures = maxFailures',
       resetTimeout = resetTimeout',
       halfOpenTimeout = word_of_int (sint resetTimeout' sdiv 2),
       state = CircuitStateClosed,
       failureCount = 0,
       lastFailureTime = 0,
       successCount = 0 \<rparr>"

definition getState :: "CircuitBreaker \<Rightarrow> CircuitState" where
  "getState cb = state cb"

text \<open>\<^verbatim>\<open>recordFailure\<close> reads \<^verbatim>\<open>time.Now()\<close>: the instant is its second argument.\<close>

definition recordFailure :: "CircuitBreaker \<Rightarrow> Time \<Rightarrow> CircuitBreaker" where
  "recordFailure cb now =
     (let cb1 = cb\<lparr> failureCount := failureCount cb + 1, lastFailureTime := now \<rparr> in
      if state cb1 = CircuitStateHalfOpen
      then cb1\<lparr> state := CircuitStateOpen, failureCount := 1, successCount := 0 \<rparr>
      else if maxFailures cb1 \<le>s failureCount cb1
      then cb1\<lparr> state := CircuitStateOpen \<rparr>
      else cb1)"

definition recordSuccess :: "CircuitBreaker \<Rightarrow> CircuitBreaker" where
  "recordSuccess cb =
     (let cb1 = cb\<lparr> failureCount := 0 \<rparr> in
      case state cb1 of
        CircuitStateHalfOpen \<Rightarrow>
          (let cb2 = cb1\<lparr> successCount := successCount cb1 + 1 \<rparr> in
           if 2 \<le>s successCount cb2
           then cb2\<lparr> state := CircuitStateClosed, successCount := 0 \<rparr>
           else cb2)
      | CircuitStateOpen \<Rightarrow> cb1\<lparr> state := CircuitStateClosed \<rparr>
      | CircuitStateClosed \<Rightarrow> cb1)"

definition transitionToHalfOpen :: "CircuitBreaker \<Rightarrow> CircuitBreaker" where
  "transitionToHalfOpen cb =
     (case state cb of
        CircuitStateOpen \<Rightarrow>
          cb\<lparr> state := CircuitStateHalfOpen, successCount := 0, failureCount := 0 \<rparr>
      | CircuitStateHalfOpen \<Rightarrow> cb
      | CircuitStateClosed \<Rightarrow> cb)"

text \<open>
  The part of \<^verbatim>\<open>Execute\<close> after the \<^verbatim>\<open>switch\<close>: the wrapped function is invoked, and its
  outcome recorded; a failure is stamped with the clock as the function left it.
\<close>

definition invoke :: "CircuitBreaker \<Rightarrow> 'v go_func \<Rightarrow> 'v world \<Rightarrow>
    go_error option \<times> CircuitBreaker \<times> 'v world" where
  "invoke cb fn w =
     (case fn w of
        (Some err, w') \<Rightarrow> (Some err, recordFailure cb (clock w'), w')
      | (None, w') \<Rightarrow> (None, recordSuccess cb, w'))"

definition Execute :: "CircuitBreaker \<Rightarrow> 'v go_func \<Rightarrow> 'v world \<Rightarrow>
    go_error option \<times> CircuitBreaker \<times> 'v world" where
  "Execute cb fn w =
     (case getState cb of
        CircuitStateOpen \<Rightarrow>
          (let timeSinceLastFailure = time_Since w (lastFailureTime cb) in
           if resetTimeout cb \<le>s timeSinceLastFailure
           then invoke (transitionToHalfOpen cb) fn w
           else (Some (errors_New ''circuit breaker is open''), cb, w))
      | CircuitStateHalfOpen \<Rightarrow> invoke cb fn w
      | CircuitStateClosed \<Rightarrow> invoke cb fn w)"

definition GetState :: "CircuitBreaker \<Rightarrow> CircuitState" where
  "GetState cb = getState cb"

fun String :: "CircuitState \<Rightarrow> string" where
  "String CircuitStateClosed = ''closed''"
| "String CircuitStateOpen = ''open''"
| "String CircuitStateHalfOpen = ''half-open''"

definition Reset :: "CircuitBreaker \<Rightarrow> CircuitBreaker" where
  "Reset cb = cb\<lparr> state := CircuitStateClosed, failureCount := 0, successCount := 0 \<rparr>"

text \<open>
  A history of completed operations on one breaker. Between two calls anything may
  happen to the world (time passes, other code runs), so every \<^verbatim>\<open>Execute\<close> of a history
  comes with the world it is called in.
\<close>

datatype 'v cb_op = OpExecute "'v go_func" "'v world" | OpReset

fun apply_op :: "CircuitBreaker \<Rightarrow> 'v cb_op \<Rightarrow> CircuitBreaker" where
  "apply_op cb (OpExecute fn w) = fst (snd (Execute cb fn w))"
| "apply_op cb OpReset = Reset cb"

fun run_ops :: "CircuitBreaker \<Rightarrow> 'v cb_op list \<Rightarrow> CircuitBreaker" where
  "run_ops cb [] = cb"
| "run_ops cb (op # ops) = run_ops (apply_op cb op) ops"

text \<open>An \<^verbatim>\<open>Execute\<close> whose wrapped function returns an error in the world it is given.\<close>

fun op_fails :: "'v cb_op \<Rightarrow> bool" where
  "op_fails (OpExecute fn w) = (fst (fn w) \<noteq> None)"
| "op_fails OpReset = False"

fun op_succeeds :: "'v cb_op \<Rightarrow> bool" where
  "op_succeeds (OpExecute fn w) = (fst (fn w) = None)"
| "op_succeeds OpReset = False"

text \<open>
  Two mock functions in the style of the repository's tests: each counts its invocations
  in \<open>vars\<close>; the first returns an error, the second returns \<^verbatim>\<open>nil\<close>.
\<close>

definition failingCall :: "nat go_func" where
  "failingCall w = (Some (errors_New ''provider error''), w\<lparr> vars := Suc (vars w) \<rparr>)"

definition succeedingCall :: "nat go_func" where
  "succeedingCall w = (None, w\<lparr> vars := Suc (vars w) \<rparr>)"

text \<open>
  Two breakers of a history with these mocks, configured with \<open>maxFailures = 1\<close> and
  \<open>resetTimeout = 0\<close>: one failure opens the first; the probe that follows succeeds and
  leaves the second half-open.
\<close>

definition openBreaker :: CircuitBreaker where
  "openBreaker =
     run_ops (NewCircuitBreaker 1 0) [OpExecute failingCall \<lparr> clock = 10, vars = 0 \<rparr>]"

definition halfOpenBreaker :: CircuitBreaker where
  "halfOpenBreaker =
     run_ops (NewCircuitBreaker 1 0)
       [OpExecute failingCall \<lparr> clock = 10, vars = 0 \<rparr>,
        OpExecute succeedingCall \<lparr> clock = 20, vars = 1 \<rparr>]"

lemmas breaker_eval =
  NewCircuitBreaker_def Execute_def getState_def invoke_def recordFailure_def
  recordSuccess_def transitionToHalfOpen_def Reset_def time_Since_def time_Sub_def
  maxDuration_def minDuration_def errors_New_def failingCall_def succeedingCall_def
  word_sle_eq word_sless_alt Let_def

subsection \<open>Invariants of the breaker's counters\<close>

text \<open>
  The success counter is 0 or 1 while half-open and 0 otherwise; in state closed the
  failure counter is 0, or positive and below \<open>maxFailures\<close>. Both hold for a new breaker
  and are kept by every operation, so no counter ever wraps around.
\<close>

definition sc_ok :: "CircuitBreaker \<Rightarrow> bool" where
  "sc_ok cb =
     (if state cb = CircuitStateHalfOpen
      then successCount cb = 0 \<or> successCount cb = 1
      else successCount cb = 0)"

definition fc_ok :: "CircuitBreaker \<Rightarrow> bool" where
  "fc_ok cb =
     (state cb \<noteq> CircuitStateClosed \<or> failureCount cb = 0 \<or>
      (0 <s failureCount cb \<and> failureCount cb <s maxFailures cb))"

lemma sint_succ: "(x::64 word) <s m \<Longrightarrow> sint (x + 1) = sint x + 1"
proof -
  assume "x <s m"
  then have "sint x < sint m" by (simp add: word_sless_alt)
  moreover have "sint m < 2 ^ 63" using sint_less [of m] by simp
  moreover have "- (2 ^ 63) \<le> sint x" using sint_greater_eq [of x] by simp
  ultimately have "signed_take_bit 63 (sint x + 1) = sint x + 1"
    by (intro signed_take_bit_int_eq_self) auto
  then show ?thesis by (simp add: sint_word_ariths)
qed

lemma sc_ok_recordSuccess: "sc_ok cb \<Longrightarrow> sc_ok (recordSuccess cb)"
  by (auto simp: sc_ok_def recordSuccess_def Let_def split: CircuitState.splits if_splits)

lemma sc_ok_recordFailure: "sc_ok cb \<Longrightarrow> sc_ok (recordFailure cb t)"
  by (auto simp: sc_ok_def recordFailure_def Let_def split: CircuitState.splits if_splits)

lemma sc_ok_transition: "sc_ok cb \<Longrightarrow> sc_ok (transitionToHalfOpen cb)"
  by (auto simp: sc_ok_def transitionToHalfOpen_def split: CircuitState.splits if_splits)

lemma sc_ok_invoke: "sc_ok cb \<Longrightarrow> sc_ok (fst (snd (invoke cb fn w)))"
  by (auto simp: invoke_def sc_ok_recordSuccess sc_ok_recordFailure
      split: prod.splits option.splits)

lemma sc_ok_Execute: "sc_ok cb \<Longrightarrow> sc_ok (fst (snd (Execute cb fn w)))"
  by (auto simp: Execute_def Let_def sc_ok_invoke sc_ok_transition split: CircuitState.splits)

lemma sc_ok_Reset: "sc_ok (Reset cb)"
  by (simp add: sc_ok_def Reset_def)

lemma sc_ok_New: "sc_ok (NewCircuitBreaker m r)"
  by (simp add: sc_ok_def NewCircuitBreaker_def)

lemma sc_ok_run_ops: "sc_ok cb \<Longrightarrow> sc_ok (run_ops cb ops)"
proof (induction ops arbitrary: cb)
  case Nil
  then show ?case by simp
next
  case (Cons op ops)
  have "sc_ok (apply_op cb op)"
    using Cons.prems by (cases op) (simp_all add: sc_ok_Execute sc_ok_Reset)
  then show ?case using Cons.IH by simp
qed

lemma fc_ok_recordSuccess: "fc_ok (recordSuccess cb)"
  by (auto simp: fc_ok_def recordSuccess_def Let_def split: CircuitState.splits if_splits)

lemma fc_ok_recordFailure: "fc_ok cb \<Longrightarrow> fc_ok (recordFailure cb t)"
proof (cases "state cb = CircuitStateClosed \<and> \<not> maxFailures cb \<le>s failureCount cb + 1")
  case False
  then show ?thesis
    by (cases "state cb") (auto simp: fc_ok_def recordFailure_def Let_def)
next
  case True
  assume ok: "fc_ok cb"
  from True have lt: "failureCount cb + 1 <s maxFailures cb"
    by (simp add: word_sless_alt word_sle_eq)
  have "0 \<le> sint (failureCount cb)"
    "failureCount cb <s maxFailures cb \<or> failureCount cb = 0"
    using ok True by (auto simp: fc_ok_def word_sless_alt)
  moreover have "failureCount cb = 0 \<Longrightarrow> sint (failureCount cb + 1) = 1"
    by simp
  ultimately have "0 < sint (failureCount cb + 1)"
    using sint_succ [of "failureCount cb" "maxFailures cb"] by auto
  then have "0 <s failureCount cb + 1" by (simp add: word_sless_alt)
  with lt True show ?thesis
    by (simp add: fc_ok_def recordFailure_def Let_def)
qed

lemma fc_ok_transition: "fc_ok cb \<Longrightarrow> fc_ok (transitionToHalfOpen cb)"
  by (auto simp: fc_ok_def transitionToHalfOpen_def split: CircuitState.splits)

lemma fc_ok_invoke: "fc_ok cb \<Longrightarrow> fc_ok (fst (snd (invoke cb fn w)))"
  by (auto simp: invoke_def fc_ok_recordSuccess fc_ok_recordFailure
      split: prod.splits option.splits)

lemma fc_ok_Execute: "fc_ok cb \<Longrightarrow> fc_ok (fst (snd (Execute cb fn w)))"
  by (auto simp: Execute_def Let_def fc_ok_invoke fc_ok_transition split: CircuitState.splits)

lemma fc_ok_Reset: "fc_ok (Reset cb)"
  by (simp add: fc_ok_def Reset_def)

lemma fc_ok_New: "fc_ok (NewCircuitBreaker m r)"
  by (simp add: fc_ok_def NewCircuitBreaker_def)

lemma fc_ok_run_ops: "fc_ok cb \<Longrightarrow> fc_ok (run_ops cb ops)"
proof (induction ops arbitrary: cb)
  case Nil
  then show ?case by simp
next
  case (Cons op ops)
  have "fc_ok (apply_op cb op)"
    using Cons.prems by (cases op) (simp_all add: fc_ok_Execute fc_ok_Reset)
  then show ?case using Cons.IH by simp
qed

text \<open>The configuration is never written after construction.\<close>

lemma maxFailures_recordFailure [simp]: "maxFailures (recordFailure cb t) = maxFailures cb"
  by (simp add: recordFailure_def Let_def)

lemma maxFailures_recordSuccess [simp]: "maxFailures (recordSuccess cb) = maxFailures cb"
  by (simp add: recordSuccess_def Let_def split: CircuitState.splits)

lemma maxFailures_transition [simp]:
  "maxFailures (transitionToHalfOpen cb) = maxFailures cb"
  by (simp add: transitionToHalfOpen_def split: CircuitState.splits)

lemma maxFailures_invoke [simp]: "maxFailures (fst (snd (invoke cb fn w))) = maxFailures cb"
  by (simp add: invoke_def split: prod.splits option.splits)

lemma maxFailures_Execute [simp]: "maxFailures (fst (snd (Execute cb fn w))) = maxFailures cb"
  by (simp add: Execute_def Let_def split: CircuitState.splits)

lemma maxFailures_apply_op [simp]: "maxFailures (apply_op cb op) = maxFailures cb"
  by (cases op) (simp_all add: Reset_def)

lemma maxFailures_run_ops [simp]: "maxFailures (run_ops cb ops) = maxFailures cb"
  by (induction ops arbitrary: cb) simp_all

subsection \<open>Single steps of the state machine\<close>

lemma Execute_Open_rejects:
  "state cb = CircuitStateOpen \<Longrightarrow> time_Since w (lastFailureTime cb) <s resetTimeout cb \<Longrightarrow>
   Execute cb fn w = (Some (errors_New ''circuit breaker is open''), cb, w)"
  by (simp add: Execute_def getState_def Let_def word_sless_alt word_sle_eq)

lemma Execute_Open_probes:
  "state cb = CircuitStateOpen \<Longrightarrow> resetTimeout cb \<le>s time_Since w (lastFailureTime cb) \<Longrightarrow>
   Execute cb fn w = invoke (transitionToHalfOpen cb) fn w"
  by (simp add: Execute_def getState_def Let_def)

lemma invoke_result: "fst (invoke cb fn w) = fst (fn w) \<and> snd (snd (invoke cb fn w)) = snd (fn w)"
  by (cases "fn w") (auto simp: invoke_def split: option.splits)

lemma invoke_fails_HalfOpen:
  "state cb = CircuitStateHalfOpen \<Longrightarrow> fst (fn w) \<noteq> None \<Longrightarrow>
   state (fst (snd (invoke cb fn w))) = CircuitStateOpen \<and>
   failureCount (fst (snd (invoke cb fn w))) = 1 \<and>
   successCount (fst (snd (invoke cb fn w))) = 0"
  by (cases "fn w") (auto simp: invoke_def recordFailure_def Let_def)

lemma Open_stays_Open:
  "state cb = CircuitStateOpen \<Longrightarrow> op_fails op \<Longrightarrow> state (apply_op cb op) = CircuitStateOpen"
proof (cases op)
  case OpReset
  assume "op_fails op"
  with OpReset show ?thesis by simp
next
  case (OpExecute fn w)
  assume st: "state cb = CircuitStateOpen" and f: "op_fails op"
  have h: "state (transitionToHalfOpen cb) = CircuitStateHalfOpen"
    using st by (simp add: transitionToHalfOpen_def)
  show ?thesis
    using st f OpExecute invoke_fails_HalfOpen [OF h, of fn w]
    by (simp add: Execute_def getState_def Let_def)
qed

lemma Closed_failure:
  assumes "state cb = CircuitStateClosed" "op_fails op"
  shows "(maxFailures cb \<le>s failureCount cb + 1 \<longrightarrow>
            state (apply_op cb op) = CircuitStateOpen) \<and>
         (\<not> maxFailures cb \<le>s failureCount cb + 1 \<longrightarrow>
            state (apply_op cb op) = CircuitStateClosed) \<and>
         failureCount (apply_op cb op) = failureCount cb + 1"
proof (cases op)
  case OpReset
  with assms show ?thesis by simp
next
  case (OpExecute fn w)
  with assms show ?thesis
    by (cases "fn w") (auto simp: Execute_def getState_def invoke_def recordFailure_def Let_def)
qed

lemma success_HalfOpen:
  assumes "state cb = CircuitStateHalfOpen" "op_succeeds op"
  shows "(successCount cb = 0 \<longrightarrow> state (apply_op cb op) = CircuitStateHalfOpen \<and>
            successCount (apply_op cb op) = 1) \<and>
         (successCount cb = 1 \<longrightarrow> state (apply_op cb op) = CircuitStateClosed \<and>
            successCount (apply_op cb op) = 0)"
proof (cases op)
  case OpReset
  with assms show ?thesis by simp
next
  case (OpExecute fn w)
  with assms show ?thesis
    by (cases "fn w")
      (auto simp: Execute_def getState_def invoke_def recordSuccess_def Let_def word_sle_eq)
qed

lemma success_Closed:
  assumes "state cb = CircuitStateClosed" "op_succeeds op"
  shows "state (apply_op cb op) = CircuitStateClosed"
proof (cases op)
  case OpReset
  with assms show ?thesis by simp
next
  case (OpExecute fn w)
  with assms show ?thesis
    by (cases "fn w")
      (auto simp: Execute_def getState_def invoke_def recordSuccess_def Let_def)
qed

lemma failure_HalfOpen:
  assumes "state cb = CircuitStateHalfOpen" "op_fails op"
  shows "state (apply_op cb op) = CircuitStateOpen \<and> failureCount (apply_op cb op) = 1 \<and>
         successCount (apply_op cb op) = 0"
proof (cases op)
  case OpReset
  with assms show ?thesis by simp
next
  case (OpExecute fn w)
  with assms invoke_fails_HalfOpen [of cb fn w] show ?thesis
    by (simp add: Execute_def getState_def)
qed

lemma two_successes_close:
  assumes "sc_ok cb" "state cb = CircuitStateHalfOpen" "op_succeeds o1" "op_succeeds o2"
  shows "state (run_ops cb [o1, o2]) = CircuitStateClosed"
proof -
  from assms(1,2) consider "successCount cb = 0" | "successCount cb = 1"
    by (auto simp: sc_ok_def)
  then show ?thesis
  proof cases
    case 1
    with success_HalfOpen [OF assms(2,3)]
    have "state (apply_op cb o1) = CircuitStateHalfOpen" "successCount (apply_op cb o1) = 1"
      by simp_all
    with success_HalfOpen [OF _ assms(4), of "apply_op cb o1"] show ?thesis by simp
  next
    case 2
    with success_HalfOpen [OF assms(2,3)]
    have "state (apply_op cb o1) = CircuitStateClosed" by simp
    with success_Closed [OF _ assms(4), of "apply_op cb o1"] show ?thesis by simp
  qed
qed

lemma probe_success:
  assumes "state cb = CircuitStateOpen"
    "resetTimeout cb \<le>s time_Since w (lastFailureTime cb)"
    "fst (fn w) = None"
  shows "state (fst (snd (Execute cb fn w))) = CircuitStateHalfOpen \<and>
         successCount (fst (snd (Execute cb fn w))) = 1"
  using assms
  by (cases "fn w")
    (auto simp: Execute_def getState_def invoke_def recordSuccess_def transitionToHalfOpen_def
      Let_def word_sle_eq)

lemma failures_open:
  "list_all op_fails calls \<Longrightarrow>
   state cb = CircuitStateOpen \<or>
   (state cb = CircuitStateClosed \<and> 0 \<le> sint (failureCount cb) \<and>
    sint (failureCount cb) < sint (maxFailures cb) \<and>
    sint (maxFailures cb) \<le> sint (failureCount cb) + int (length calls)) \<Longrightarrow>
   state (run_ops cb calls) = CircuitStateOpen"
proof (induction calls arbitrary: cb)
  case Nil
  then show ?case by auto
next
  case (Cons op calls)
  from Cons.prems(1) have f: "op_fails op" and rest: "list_all op_fails calls" by simp_all
  show ?case
  proof (cases "state cb = CircuitStateOpen")
    case True
    then have "state (apply_op cb op) = CircuitStateOpen" using f by (rule Open_stays_Open)
    then show ?thesis using Cons.IH [OF rest] by simp
  next
    case False
    with Cons.prems(2) have c: "state cb = CircuitStateClosed"
      and lo: "0 \<le> sint (failureCount cb)"
      and hi: "sint (failureCount cb) < sint (maxFailures cb)"
      and len: "sint (maxFailures cb) \<le> sint (failureCount cb) + int (length (op # calls))"
      by auto
    have s: "sint (failureCount cb + 1) = sint (failureCount cb) + 1"
      using hi sint_succ [of "failureCount cb" "maxFailures cb"] by (simp add: word_sless_alt)
    note step = Closed_failure [OF c f]
    show ?thesis
    proof (cases "maxFailures cb \<le>s failureCount cb + 1")
      case True
      with step have "state (apply_op cb op) = CircuitStateOpen" by simp
      then show ?thesis using Cons.IH [OF rest] by simp
    next
      case False
      with step have c': "state (apply_op cb op) = CircuitStateClosed"
        and fc': "failureCount (apply_op cb op) = failureCount cb + 1" by simp_all
      from False have "sint (failureCount cb + 1) < sint (maxFailures cb)"
        by (simp add: word_sle_eq)
      with c' fc' s lo len have
        "state (apply_op cb op) = CircuitStateClosed \<and>
         0 \<le> sint (failureCount (apply_op cb op)) \<and>
         sint (failureCount (apply_op cb op)) < sint (maxFailures (apply_op cb op)) \<and>
         sint (maxFailures (apply_op cb op))
           \<le> sint (failureCount (apply_op cb op)) + int (length calls)"
        by simp
      then show ?thesis using Cons.IH [OF rest, of "apply_op cb op"] by simp
    qed
  qed
qed

subsection \<open>Claims about the breaker\<close>

text \<open>
  C10. After every completed operation of a breaker (construction, then any history of
  \<^verbatim>\<open>Execute\<close> and \<^verbatim>\<open>Reset\<close> calls), the success counter is 0 unless the state is
  half-open and it never exceeds 1; so a positive success counter means the breaker is
  half-open, in the middle of a probe.
\<close>

theorem success_counter_invariant:
  assumes "cb = run_ops (NewCircuitBreaker m r) history"
  shows "(state cb \<noteq> CircuitStateHalfOpen \<longrightarrow> successCount cb = 0) \<and>
         successCount cb \<le>s 1 \<and>
         (0 <s successCount cb \<longrightarrow> state cb = CircuitStateHalfOpen)"
proof -
  have "sc_ok cb" using assms sc_ok_run_ops [OF sc_ok_New] by simp
  then show ?thesis by (auto simp: sc_ok_def word_sle_eq word_sless_alt split: if_splits)
qed

theorem success_counter_invariant_witness:
  "state halfOpenBreaker = CircuitStateHalfOpen \<and>
   successCount halfOpenBreaker = 1 \<and>
   0 <s successCount halfOpenBreaker \<and>
   successCount halfOpenBreaker \<le>s 1 \<and>
   state openBreaker \<noteq> CircuitStateHalfOpen \<and>
   successCount openBreaker = 0"
  using
    success_counter_invariant [of halfOpenBreaker 1 0
      "[OpExecute failingCall \<lparr> clock = 10, vars = 0 \<rparr>,
        OpExecute succeedingCall \<lparr> clock = 20, vars = 1 \<rparr>]"]
    success_counter_invariant [of openBreaker 1 0
      "[OpExecute failingCall \<lparr> clock = 10, vars = 0 \<rparr>]"]
  by (simp add: openBreaker_def halfOpenBreaker_def breaker_eval)

text \<open>
  C3. A breaker built with \<open>maxFailures = m\<close> (a number of calls, so at least 1) that is
  closed after any history of operations is open after \<open>m\<close> further \<^verbatim>\<open>Execute\<close> calls
  whose wrapped functions fail. And whenever a breaker is open and less than
  \<open>resetTimeout\<close> has passed since the last failure, \<^verbatim>\<open>Execute\<close> returns the
  "circuit breaker is open" error and leaves breaker and world as they were: the
  wrapped function was not invoked.
\<close>

theorem breaker_opens_after_maxFailures:
  assumes "1 \<le>s m"
    and "cb = run_ops (NewCircuitBreaker m r) (history :: 'v cb_op list)"
    and "state cb = CircuitStateClosed"
    and "length (calls :: 'v cb_op list) = nat (sint m)"
    and "list_all op_fails calls"
  shows "state (run_ops cb calls) = CircuitStateOpen \<and>
    (\<forall>cb' (fn :: 'v go_func) w. state cb' = CircuitStateOpen \<and>
        time_Since w (lastFailureTime cb') <s resetTimeout cb' \<longrightarrow>
        Execute cb' fn w = (Some (errors_New ''circuit breaker is open''), cb', w))"
proof -
  have m: "maxFailures cb = m" using assms(2) by (simp add: NewCircuitBreaker_def)
  have "fc_ok cb" using assms(2) fc_ok_run_ops [OF fc_ok_New] by simp
  with assms(3) have "failureCount cb = 0 \<or> (0 <s failureCount cb \<and> failureCount cb <s m)"
    by (simp add: fc_ok_def m)
  moreover have "1 \<le> sint m" using assms(1) by (simp add: word_sle_eq)
  ultimately have "0 \<le> sint (failureCount cb) \<and> sint (failureCount cb) < sint m"
    by (auto simp: word_sless_alt)
  moreover have "sint m \<le> sint (failureCount cb) + int (length calls)"
    using assms(4) calculation by simp
  ultimately have "state (run_ops cb calls) = CircuitStateOpen"
    using failures_open [OF assms(5), of cb] assms(3) m by simp
  then show ?thesis by (simp add: Execute_Open_rejects)
qed

text \<open>
  An instance with the service's own configuration (5 failures, 30 seconds): five failing
  calls open a new breaker; a sixth call one second after the last failure is rejected
  and the mock's call counter stays at 5.
\<close>

definition fiveFailures :: "nat cb_op list" where
  "fiveFailures =
     [OpExecute failingCall \<lparr> clock = 1000, vars = 0 \<rparr>,
      OpExecute failingCall \<lparr> clock = 2000, vars = 1 \<rparr>,
      OpExecute failingCall \<lparr> clock = 3000, vars = 2 \<rparr>,
      OpExecute failingCall \<lparr> clock = 4000, vars = 3 \<rparr>,
      OpExecute failingCall \<lparr> clock = 5000, vars = 4 \<rparr>]"

definition trippedBreaker :: CircuitBreaker where
  "trippedBreaker = run_ops (NewCircuitBreaker 5 30000000000) fiveFailures"

theorem breaker_opens_after_maxFailures_witness:
  "state trippedBreaker = CircuitStateOpen \<and>
   failureCount trippedBreaker = 5 \<and>
   time_Since \<lparr> clock = 1000005000, vars = 5::nat \<rparr> (lastFailureTime trippedBreaker)
     <s resetTimeout trippedBreaker \<and>
   Execute trippedBreaker failingCall \<lparr> clock = 1000005000, vars = 5 \<rparr> =
     (Some (errors_New ''circuit breaker is open''), trippedBreaker,
      \<lparr> clock = 1000005000, vars = 5 \<rparr>)"
proof -
  have h1: "(1::go_int) \<le>s 5" by (simp add: word_sle_eq)
  have h2: "NewCircuitBreaker 5 30000000000 =
      run_ops (NewCircuitBreaker 5 30000000000) ([]::nat cb_op list)" by simp
  have h3: "state (NewCircuitBreaker 5 30000000000) = CircuitStateClosed"
    by (simp add: NewCircuitBreaker_def)
  have h4: "length fiveFailures = nat (sint (5::go_int))" by (simp add: fiveFailures_def)
  have h5: "list_all op_fails fiveFailures" by (simp add: fiveFailures_def failingCall_def)
  have opn: "state trippedBreaker = CircuitStateOpen"
    and rej: "\<And>cb' fn w. state cb' = CircuitStateOpen \<and>
        time_Since (w::nat world) (lastFailureTime cb') <s resetTimeout cb' \<longrightarrow>
        Execute cb' fn w = (Some (errors_New ''circuit breaker is open''), cb', w)"
    using breaker_opens_after_maxFailures [OF h1 h2 h3 h4 h5]
    by (simp_all add: trippedBreaker_def)
  have t: "lastFailureTime trippedBreaker = 5000 \<and> resetTimeout trippedBreaker = 30000000000 \<and>
      failureCount trippedBreaker = 5"
    by (simp add: trippedBreaker_def fiveFailures_def breaker_eval)
  then have lt: "time_Since \<lparr> clock = 1000005000, vars = 5::nat \<rparr> (lastFailureTime trippedBreaker)
      <s resetTimeout trippedBreaker"
    by (simp add: time_Since_def time_Sub_def maxDuration_def minDuration_def word_sless_alt)
  show ?thesis
    using opn t lt rej [of trippedBreaker "\<lparr> clock = 1000005000, vars = 5::nat \<rparr>" failingCall]
    by simp
qed

text \<open>
  C4. For a breaker that is open once \<open>resetTimeout\<close> has passed since the last failure,
  the next \<^verbatim>\<open>Execute\<close> moves it to half-open and invokes the wrapped function in that
  state (the call's error and its effect on the world are the function's own); if that
  probe succeeds the breaker is left half-open, and one more success closes it. From any
  half-open breaker two consecutive successful calls end in state closed, and a single
  failing call ends in state open with failure count 1 and success count 0.
\<close>

theorem half_open_probe:
  assumes "cb = run_ops (NewCircuitBreaker m r) history"
  shows
    "(state cb = CircuitStateOpen \<and>
      resetTimeout cb \<le>s time_Since w (lastFailureTime cb) \<longrightarrow>
        state (transitionToHalfOpen cb) = CircuitStateHalfOpen \<and>
        Execute cb fn w = invoke (transitionToHalfOpen cb) fn w \<and>
        fst (Execute cb fn w) = fst (fn w) \<and>
        snd (snd (Execute cb fn w)) = snd (fn w) \<and>
        (fst (fn w) = None \<longrightarrow>
           state (apply_op cb (OpExecute fn w)) = CircuitStateHalfOpen \<and>
           (op_succeeds o2 \<longrightarrow>
              state (run_ops cb [OpExecute fn w, o2]) = CircuitStateClosed))) \<and>
     (state cb = CircuitStateHalfOpen \<and> op_succeeds o1 \<and> op_succeeds o2 \<longrightarrow>
        state (run_ops cb [o1, o2]) = CircuitStateClosed) \<and>
     (state cb = CircuitStateHalfOpen \<and> op_fails o3 \<longrightarrow>
        state (apply_op cb o3) = CircuitStateOpen \<and>
        failureCount (apply_op cb o3) = 1 \<and>
        successCount (apply_op cb o3) = 0)"
proof -
  have ok: "sc_ok cb" using assms sc_ok_run_ops [OF sc_ok_New] by simp
  have p1: "state (transitionToHalfOpen cb) = CircuitStateHalfOpen"
    if "state cb = CircuitStateOpen"
    using that by (simp add: transitionToHalfOpen_def)
  have p2: "Execute cb fn w = invoke (transitionToHalfOpen cb) fn w"
    if "state cb = CircuitStateOpen" "resetTimeout cb \<le>s time_Since w (lastFailureTime cb)"
    using that by (rule Execute_Open_probes)
  have p3: "state (apply_op cb (OpExecute fn w)) = CircuitStateHalfOpen \<and>
            successCount (apply_op cb (OpExecute fn w)) = 1"
    if "state cb = CircuitStateOpen" "resetTimeout cb \<le>s time_Since w (lastFailureTime cb)"
      "fst (fn w) = None"
    using probe_success [of cb w fn] that by simp
  have p4: "state (run_ops cb [OpExecute fn w, o2]) = CircuitStateClosed"
    if "state cb = CircuitStateOpen" "resetTimeout cb \<le>s time_Since w (lastFailureTime cb)"
      "fst (fn w) = None" "op_succeeds o2"
    using p3 [OF that(1-3)] success_HalfOpen [OF _ that(4), of "apply_op cb (OpExecute fn w)"]
    by simp
  have p5: "state (run_ops cb [o1, o2]) = CircuitStateClosed"
    if "state cb = CircuitStateHalfOpen" "op_succeeds o1" "op_succeeds o2"
    using two_successes_close [OF ok that] .
  note p6 = failure_HalfOpen [of cb o3]
  show ?thesis
    using p1 p2 p3 p4 p5 p6 by (simp add: invoke_result)
qed

theorem half_open_probe_witness:
  "state openBreaker = CircuitStateOpen \<and>
   resetTimeout openBreaker
     \<le>s time_Since \<lparr> clock = 20, vars = 1::nat \<rparr> (lastFailureTime openBreaker) \<and>
   Execute openBreaker succeedingCall \<lparr> clock = 20, vars = 1 \<rparr> =
     (None, halfOpenBreaker, \<lparr> clock = 20, vars = 2 \<rparr>) \<and>
   state halfOpenBreaker = CircuitStateHalfOpen \<and>
   state (run_ops openBreaker
      [OpExecute succeedingCall \<lparr> clock = 20, vars = 1 \<rparr>,
       OpExecute succeedingCall \<lparr> clock = 30, vars = 2 \<rparr>]) = CircuitStateClosed \<and>
   state (run_ops halfOpenBreaker
      [OpExecute succeedingCall \<lparr> clock = 30, vars = 2 \<rparr>,
       OpExecute succeedingCall \<lparr> clock = 40, vars = 3 \<rparr>]) = CircuitStateClosed \<and>
   state (apply_op halfOpenBreaker (OpExecute failingCall \<lparr> clock = 30, vars = 2 \<rparr>))
     = CircuitStateOpen \<and>
   failureCount (apply_op halfOpenBreaker (OpExecute failingCall \<lparr> clock = 30, vars = 2 \<rparr>))
     = 1 \<and>
   successCount (apply_op halfOpenBreaker (OpExecute failingCall \<lparr> clock = 30, vars = 2 \<rparr>))
     = 0"
  using
    half_open_probe [of openBreaker 1 0
      "[OpExecute failingCall \<lparr> clock = 10, vars = 0 \<rparr>]"
      "\<lparr> clock = 20, vars = 1 \<rparr>" succeedingCall
      "OpExecute succeedingCall \<lparr> clock = 30, vars = 2 \<rparr>"
      "OpExecute succeedingCall \<lparr> clock = 30, vars = 2 \<rparr>"
      "OpExecute succeedingCall \<lparr> clock = 30, vars = 2 \<rparr>"]
    half_open_probe [of halfOpenBreaker 1 0
      "[OpExecute failingCall \<lparr> clock = 10, vars = 0 \<rparr>,
        OpExecute succeedingCall \<lparr> clock = 20, vars = 1 \<rparr>]"
      "\<lparr> clock = 20, vars = 1 \<rparr>" succeedingCall
      "OpExecute succeedingCall \<lparr> clock = 40, vars = 3 \<rparr>"
      "OpExecute succeedingCall \<lparr> clock = 30, vars = 2 \<rparr>"
      "OpExecute failingCall \<lparr> clock = 30, vars = 2 \<rparr>"]
  by (simp add: openBreaker_def halfOpenBreaker_def breaker_eval)

section \<open>Slices and the domain types\<close>

text \<open>
  A Go slice is \<^verbatim>\<open>nil\<close> (\<open>None\<close>) or holds elements; \<^verbatim>\<open>len\<close> of both the nil and the empty
  slice is 0. The slices of this service hold pointers to \<^verbatim>\<open>Content\<close> values that the
  functions modelled here never write through, so an element is the value itself.
  Slicing outside \<open>0 \<le> lo \<le> hi \<le> cap\<close> panics; the panic is a value of the model. The
  capacity of a slice is not below its length and is not otherwise known: the one place
  that slices with an upper bound has checked it against the length already.
\<close>

type_synonym 'a slice = "'a list option"

definition elems :: "'a slice \<Rightarrow> 'a list" where
  "elems s = (case s of None \<Rightarrow> [] | Some xs \<Rightarrow> xs)"

definition len :: "'a slice \<Rightarrow> go_int" where
  "len s = word_of_nat (length (elems s))"

definition append_slice :: "'a slice \<Rightarrow> 'a slice \<Rightarrow> 'a slice" where
  "append_slice s t =
     (case s of
        None \<Rightarrow> (if elems t = [] then None else Some (elems t))
      | Some xs \<Rightarrow> Some (xs @ elems t))"

datatype panic = SliceBoundsOutOfRange

definition slice_from :: "'a slice \<Rightarrow> go_int \<Rightarrow> panic + 'a slice" where
  "slice_from s lo =
     (if 0 \<le>s lo \<and> lo \<le>s len s
      then Inr (map_option (drop (nat (sint lo))) s)
      else Inl SliceBoundsOutOfRange)"

definition slice_range :: "'a slice \<Rightarrow> go_int \<Rightarrow> go_int \<Rightarrow> panic + 'a slice" where
  "slice_range s lo hi =
     (if 0 \<le>s lo \<and> lo \<le>s hi \<and> hi \<le>s len s
      then Inr (map_option
                 (\<lambda>xs. take (nat (sint hi) - nat (sint lo)) (drop (nat (sint lo)) xs)) s)
      else Inl SliceBoundsOutOfRange)"

type_synonym ContentType = string

definition ContentTypeVideo :: ContentType where
  "ContentTypeVideo = ''video''"

definition ContentTypeText :: ContentType where
  "ContentTypeText = ''text''"

text \<open>
  \<^verbatim>\<open>Content\<close> without its floating-point score and its three timestamps, which no function
  below reads.
\<close>

record Content =
  ID :: "64 word"
  ProviderID :: string
  Provider :: string
  Title :: string
  Type :: ContentType
  Views :: go_int
  Likes :: go_int
  ReadingTime :: go_int
  Reactions :: go_int

record SearchRequest =
  Query :: string
  ContentType :: "ContentType option"
  Page :: go_int
  PageSize :: go_int
  SortBy :: string
  SortOrder :: string

definition DefaultPage :: go_int where
  "DefaultPage = 1"

definition DefaultPageSize :: go_int where
  "DefaultPageSize = 20"

definition MaxPageSize :: go_int where
  "MaxPageSize = 100"

definition isInvalidPage :: "go_int \<Rightarrow> bool" where
  "isInvalidPage page = (page \<le>s 0)"

definition isInvalidPageSize :: "go_int \<Rightarrow> bool" where
  "isInvalidPageSize pageSize = (pageSize \<le>s 0)"

definition exceedsMaxPageSize :: "go_int \<Rightarrow> bool" where
  "exceedsMaxPageSize pageSize = (MaxPageSize <s pageSize)"

definition NormalizePagination :: "SearchRequest \<Rightarrow> SearchRequest" where
  "NormalizePagination req =
     (let r1 = (if isInvalidPage (Page req) then req\<lparr> Page := DefaultPage \<rparr> else req);
          r2 = (if isInvalidPageSize (PageSize r1) then r1\<lparr> PageSize := DefaultPageSize \<rparr>
                else r1)
      in if exceedsMaxPageSize (PageSize r2) then r2\<lparr> PageSize := MaxPageSize \<rparr> else r2)"

section \<open>Package service: ContentService\<close>

definition isStartBeyondBounds :: "go_int \<Rightarrow> go_int \<Rightarrow> bool" where
  "isStartBeyondBounds start total' = (total' <s start)"

definition isEndBeyondBounds :: "go_int \<Rightarrow> go_int \<Rightarrow> bool" where
  "isEndBeyondBounds end' total' = (total' <s end')"

definition paginateCachedResults ::
    "Content slice \<Rightarrow> go_int \<Rightarrow> go_int \<Rightarrow> panic + Content slice" where
  "paginateCachedResults cached page pageSize =
     (let start = (page - 1) * pageSize;
          end' = start + pageSize;
          total' = len cached
      in if isStartBeyondBounds start total' then Inr (Some [])
         else if isEndBeyondBounds end' total' then slice_from cached start
         else slice_range cached start end')"

text \<open>\<^verbatim>\<open>fmt.Sprintf("search:%s:%s:%s:%s", ...)\<close> on four strings.\<close>

definition generateCacheKey :: "SearchRequest \<Rightarrow> string" where
  "generateCacheKey req =
     (let contentType = (case ContentType req of None \<Rightarrow> ''all'' | Some ct \<Rightarrow> ct);
          sortOrder = (if SortOrder req = [] then ''desc'' else SortOrder req)
      in ''search:'' @ Query req @ '':'' @ contentType @ '':'' @ SortBy req @ '':'' @ sortOrder)"

text \<open>
  The first lines of \<^verbatim>\<open>Search\<close>, up to the key it looks up in the cache: pagination is
  normalised and a sort order other than "asc" and "desc" becomes "desc".
\<close>

definition Search_cacheKey :: "SearchRequest \<Rightarrow> string" where
  "Search_cacheKey req =
     (let r1 = NormalizePagination req;
          r2 = (if SortOrder r1 \<noteq> ''asc'' \<and> SortOrder r1 \<noteq> ''desc''
                then r1\<lparr> SortOrder := ''desc'' \<rparr> else r1)
      in generateCacheKey r2)"

text \<open>Three cached records, as in the repository's pagination test.\<close>

definition item :: "nat \<Rightarrow> Content" where
  "item n =
     \<lparr> ID = word_of_nat n, ProviderID = ''p1'', Provider = ''provider1'', Title = ''Item'',
       Type = ContentTypeVideo, Views = 100, Likes = 10, ReadingTime = 0, Reactions = 0 \<rparr>"

definition threeItems :: "Content slice" where
  "threeItems = Some [item 1, item 2, item 3]"

lemmas paginate_eval =
  paginateCachedResults_def isStartBeyondBounds_def isEndBeyondBounds_def
  slice_from_def slice_range_def len_def elems_def Let_def word_sle_eq word_sless_alt

subsection \<open>Pagination when the indices fit a Go int\<close>

lemma sint_in_range:
  "- (2 ^ 63) \<le> k \<Longrightarrow> k < 2 ^ 63 \<Longrightarrow> sint (word_of_int k :: go_int) = k"
  by (simp add: sint_word_ariths signed_take_bit_int_eq_self Word.sint_sbintrunc')

lemma sint_len:
  assumes "length (elems s) < 2 ^ 63"
  shows "sint (len s) = int (length (elems s))"
proof -
  have "len s = word_of_int (int (length (elems s)))" by (simp add: len_def)
  moreover have "int (length (elems s)) < 2 ^ 63" using assms by (simp flip: of_nat_less_iff)
  ultimately show ?thesis using sint_in_range [of "int (length (elems s))"] by simp
qed

lemma paginate_indices:
  assumes "1 \<le>s (page :: go_int)" "1 \<le>s (pageSize :: go_int)"
    "sint page * sint pageSize < 2 ^ 63"
  shows "sint ((page - 1) * pageSize) = (sint page - 1) * sint pageSize \<and>
         sint ((page - 1) * pageSize + pageSize) = sint page * sint pageSize"
proof -
  let ?p = "sint page" and ?q = "sint pageSize"
  from assms have p: "1 \<le> ?p" and q: "1 \<le> ?q" by (simp_all add: word_sle_eq)
  have pm: "sint (page - 1) = ?p - 1"
  proof -
    have "- (2 ^ 63) \<le> ?p - 1" using p by simp
    moreover have "?p - 1 < 2 ^ 63" using sint_less [of page] by simp
    ultimately have "signed_take_bit 63 (?p - 1) = ?p - 1"
      by (rule signed_take_bit_int_eq_self)
    then show ?thesis by (simp add: sint_word_ariths)
  qed
  have le: "(?p - 1) * ?q \<le> ?p * ?q" using p q by (simp add: mult_right_mono)
  have nn: "0 \<le> (?p - 1) * ?q" using p q by simp
  have st: "sint ((page - 1) * pageSize) = (?p - 1) * ?q"
  proof -
    have "- (2 ^ 63) \<le> (?p - 1) * ?q" using nn by simp
    moreover have "(?p - 1) * ?q < 2 ^ 63" using le assms(3) by simp
    ultimately have "signed_take_bit 63 ((?p - 1) * ?q) = (?p - 1) * ?q"
      by (rule signed_take_bit_int_eq_self)
    moreover have "sint ((page - 1) * pageSize) = signed_take_bit 63 (sint (page - 1) * ?q)"
      by (simp add: sint_word_mult)
    ultimately show ?thesis by (simp add: pm)
  qed
  have en: "sint ((page - 1) * pageSize + pageSize) = ?p * ?q"
  proof -
    have e: "(?p - 1) * ?q + ?q = ?p * ?q" by (simp add: algebra_simps)
    have "0 \<le> ?p * ?q" using p q by simp
    then have "- (2 ^ 63) \<le> ?p * ?q" by simp
    then have "signed_take_bit 63 (?p * ?q) = ?p * ?q"
      using assms(3) by (rule signed_take_bit_int_eq_self)
    moreover have "sint ((page - 1) * pageSize + pageSize) =
        signed_take_bit 63 (sint ((page - 1) * pageSize) + ?q)"
      by (simp add: sint_word_add)
    ultimately show ?thesis by (simp add: st e)
  qed
  show ?thesis using st en by simp
qed

lemma paginate_in_range:
  assumes "1 \<le>s page" "1 \<le>s pageSize" "sint page * sint pageSize < 2 ^ 63"
    and "length (elems cached) < 2 ^ 63"
  shows "paginateCachedResults cached page pageSize =
    Inr (if int (length (elems cached)) < (sint page - 1) * sint pageSize then Some []
         else map_option (\<lambda>xs. take (nat (sint pageSize))
                (drop (nat ((sint page - 1) * sint pageSize)) xs)) cached)"
proof -
  let ?p = "sint page" and ?q = "sint pageSize"
  let ?n = "length (elems cached)"
  note idx = paginate_indices [OF assms(1-3)]
  note tot = sint_len [OF assms(4)]
  from assms have p: "1 \<le> ?p" and q: "1 \<le> ?q" by (simp_all add: word_sle_eq)
  have nn: "0 \<le> (?p - 1) * ?q" using p q by simp
  have e: "?p * ?q = (?p - 1) * ?q + ?q" by (simp add: algebra_simps)
  show ?thesis
  proof (cases "int ?n < (?p - 1) * ?q")
    case True
    then show ?thesis
      by (simp add: paginateCachedResults_def isStartBeyondBounds_def Let_def word_sless_alt idx tot)
  next
    case False
    then have le: "(?p - 1) * ?q \<le> int ?n" by simp
    then have dl: "nat ((?p - 1) * ?q) \<le> ?n" by linarith
    show ?thesis
    proof (cases "int ?n < ?p * ?q")
      case True
      have "length (drop (nat ((?p - 1) * ?q)) xs) \<le> nat ?q" if "xs = elems cached" for xs
        using True e nn that by (simp add: nat_le_iff)
      then have "map_option (drop (nat ((?p - 1) * ?q))) cached =
          map_option (\<lambda>xs. take (nat ?q) (drop (nat ((?p - 1) * ?q)) xs)) cached"
        by (cases cached) (simp_all add: elems_def)
      with True False nn le show ?thesis
        by (simp add: paginateCachedResults_def isStartBeyondBounds_def isEndBeyondBounds_def
            slice_from_def Let_def word_sless_alt word_sle_eq idx tot)
    next
      case F2: False
      have "nat (?p * ?q) - nat ((?p - 1) * ?q) = nat ?q"
        using e nn q by (simp add: nat_add_distrib)
      with F2 False nn le q show ?thesis
        by (simp add: paginateCachedResults_def isStartBeyondBounds_def isEndBeyondBounds_def
            slice_range_def Let_def word_sless_alt word_sle_eq idx tot e)
    qed
  qed
qed


lemma paginate_three_items:
  "paginateCachedResults threeItems 1 2 = Inr (Some [item 1, item 2]) \<and>
   paginateCachedResults threeItems 2 2 = Inr (Some [item 3]) \<and>
   paginateCachedResults threeItems 3 2 = Inr (Some [])"
  by (simp add: threeItems_def paginate_eval)

subsection \<open>The cache key as a function of the request\<close>

lemma NormalizePagination_fields:
  "Query (NormalizePagination req) = Query req"
  "ContentType (NormalizePagination req) = ContentType req"
  "SortBy (NormalizePagination req) = SortBy req"
  "SortOrder (NormalizePagination req) = SortOrder req"
  by (simp_all add: NormalizePagination_def Let_def)

lemma generateCacheKey_fields:
  "generateCacheKey (r\<lparr> SortOrder := so \<rparr>) =
     ''search:'' @ Query r @ '':'' @ (case ContentType r of None \<Rightarrow> ''all'' | Some ct \<Rightarrow> ct) @
     '':'' @ SortBy r @ '':'' @ (if so = [] then ''desc'' else so)"
  by (simp add: generateCacheKey_def)

lemma Search_cacheKey_explicit:
  "Search_cacheKey req =
     ''search:'' @ Query req @ '':'' @
     (case ContentType req of None \<Rightarrow> ''all'' | Some ct \<Rightarrow> ct) @ '':'' @ SortBy req @ '':'' @
     (if SortOrder req \<noteq> ''asc'' \<and> SortOrder req \<noteq> ''desc'' then ''desc''
      else SortOrder req)"
proof (cases "SortOrder req \<noteq> ''asc'' \<and> SortOrder req \<noteq> ''desc''")
  case True
  then have "Search_cacheKey req = generateCacheKey ((NormalizePagination req)\<lparr> SortOrder := ''desc'' \<rparr>)"
    by (simp add: Search_cacheKey_def Let_def NormalizePagination_fields)
  with True show ?thesis
    by (simp only: generateCacheKey_fields NormalizePagination_fields) simp
next
  case False
  then have ne: "SortOrder req \<noteq> []" by auto
  have nc: "\<not> (SortOrder (NormalizePagination req) \<noteq> ''asc'' \<and>
      SortOrder (NormalizePagination req) \<noteq> ''desc'')"
    unfolding NormalizePagination_fields by (rule False)
  have "Search_cacheKey req = generateCacheKey (NormalizePagination req)"
    unfolding Search_cacheKey_def Let_def by (simp only: nc if_False)
  also have "\<dots> = generateCacheKey ((NormalizePagination req)\<lparr> SortOrder := SortOrder req \<rparr>)"
    using NormalizePagination_fields(4) [of req] by (metis SearchRequest.surjective SearchRequest.update_convs(6))
  finally show ?thesis using False ne
    by (simp only: generateCacheKey_fields NormalizePagination_fields)
qed

subsection \<open>Claims about ContentService\<close>

text \<open>
  C7. The claim is stated for every page and page size of at least 1. It holds whenever
  \<open>page * pageSize\<close> fits a Go int (\<open>paginate_in_range\<close>, and \<open>paginate_three_items\<close>
  for the example of three records). It fails where \<open>(page - 1) * pageSize\<close> wraps
  around: for page 3689348814741910324 and page size 5 the start index is computed as
  -1 and the end index as 4, neither bounds check of the function catches a negative
  start, and slicing three cached records from index -1 panics. \<^verbatim>\<open>Search\<close> accepts this
  page: pagination is normalised only from below.
\<close>

theorem paginate_overflow_panics:
  "(1::go_int) \<le>s 3689348814741910324 \<and> (1::go_int) \<le>s 5 \<and>
   Page (NormalizePagination \<lparr> Query = ''q'', ContentType = None,
      Page = 3689348814741910324, PageSize = 5, SortBy = [], SortOrder = [] \<rparr>)
     = 3689348814741910324 \<and>
   (3689348814741910324 - 1) * 5 = (- 1 :: go_int) \<and>
   paginateCachedResults threeItems 3689348814741910324 5 = Inl SliceBoundsOutOfRange"
  by (simp add: threeItems_def paginate_eval NormalizePagination_def isInvalidPage_def
      isInvalidPageSize_def exceedsMaxPageSize_def MaxPageSize_def)

text \<open>
  C8. A request with the explicit content-type filter "all" and the same request with no
  content-type filter have the same cache key, both as \<^verbatim>\<open>generateCacheKey\<close> computes
  it and as \<^verbatim>\<open>Search\<close> looks it up after normalising the request.
\<close>

theorem cache_key_all_is_absent:
  "generateCacheKey (req\<lparr> ContentType := Some ''all'' \<rparr>) =
     generateCacheKey (req\<lparr> ContentType := None \<rparr>) \<and>
   Search_cacheKey (req\<lparr> ContentType := Some ''all'' \<rparr>) =
     Search_cacheKey (req\<lparr> ContentType := None \<rparr>)"
  by (simp add: Search_cacheKey_explicit generateCacheKey_def)

section \<open>Package service: ProviderService\<close>

text \<open>
  A provider adapter is a value of an interface; the model keeps its three methods.
  \<^verbatim>\<open>FetchContent\<close> talks to an external source: it is given the instant of the call and
  returns its two results with the instant of its return (a cancelled context shows as
  an error result).
\<close>

record ProviderAdapter =
  GetName :: string
  GetRateLimit :: go_int
  FetchContent :: "string \<Rightarrow> ContentType option \<Rightarrow> Time \<Rightarrow> (Content slice \<times> go_error option) \<times> Time"

text \<open>
  The service's map from provider names to breakers holds pointers. A pointer is an index
  into \<open>heap\<close>, the breakers allocated so far; allocation appends. The adapter registry
  and the logger are not part of the state: the registered adapters are an argument of
  \<^verbatim>\<open>FetchFromAllProviders\<close>, and logging has no effect on results.
\<close>

record ProviderService =
  circuitBreakers :: "string \<rightharpoonup> nat"
  heap :: "CircuitBreaker list"

definition NewProviderService :: ProviderService where
  "NewProviderService = \<lparr> circuitBreakers = Map.empty, heap = [] \<rparr>"

definition Second :: Duration where
  "Second = 1000000000"

text \<open>
  \<^verbatim>\<open>getCircuitBreaker\<close> is three steps: the lookup under the read lock, the allocation of
  a new breaker with no lock held, and the store under the write lock. Each is atomic
  with respect to the other callers. Called alone the function is their composition.
\<close>

definition lookupBreaker :: "ProviderService \<Rightarrow> string \<Rightarrow> nat option" where
  "lookupBreaker s providerName = circuitBreakers s providerName"

definition createBreaker :: "ProviderService \<Rightarrow> nat \<times> ProviderService" where
  "createBreaker s =
     (length (heap s), s\<lparr> heap := heap s @ [NewCircuitBreaker 5 (30 * Second)] \<rparr>)"

definition storeBreaker :: "ProviderService \<Rightarrow> string \<Rightarrow> nat \<Rightarrow> ProviderService" where
  "storeBreaker s providerName cb =
     s\<lparr> circuitBreakers := (circuitBreakers s)(providerName \<mapsto> cb) \<rparr>"

definition getCircuitBreaker :: "ProviderService \<Rightarrow> string \<Rightarrow> nat \<times> ProviderService" where
  "getCircuitBreaker s providerName =
     (case lookupBreaker s providerName of
        Some cb \<Rightarrow> (cb, s)
      | None \<Rightarrow>
          (case createBreaker s of (cb, s1) \<Rightarrow> (cb, storeBreaker s1 providerName cb)))"

text \<open>
  The same function one critical section at a time, for callers that run concurrently:
  a thread is at its lookup, about to create, about to store the breaker it created, or
  has returned a breaker. A schedule names the thread that takes the next step.
\<close>

datatype gcb_thread = AtLookup | AtCreate | AtStore nat | Returned nat

fun gcb_step :: "ProviderService \<Rightarrow> string \<Rightarrow> gcb_thread \<Rightarrow> ProviderService \<times> gcb_thread" where
  "gcb_step s providerName AtLookup =
     (case lookupBreaker s providerName of
        Some cb \<Rightarrow> (s, Returned cb)
      | None \<Rightarrow> (s, AtCreate))"
| "gcb_step s providerName AtCreate =
     (case createBreaker s of (cb, s1) \<Rightarrow> (s1, AtStore cb))"
| "gcb_step s providerName (AtStore cb) = (storeBreaker s providerName cb, Returned cb)"
| "gcb_step s providerName (Returned cb) = (s, Returned cb)"

fun interleave ::
    "ProviderService \<Rightarrow> (string \<times> gcb_thread) list \<Rightarrow> nat list \<Rightarrow>
     ProviderService \<times> (string \<times> gcb_thread) list" where
  "interleave s threads [] = (s, threads)"
| "interleave s threads (i # schedule) =
     (if i < length threads
      then (case gcb_step s (fst (threads ! i)) (snd (threads ! i)) of
              (s', pc') \<Rightarrow> interleave s' (threads[i := (fst (threads ! i), pc')]) schedule)
      else interleave s threads schedule)"

text \<open>
  The function literal handed to \<^verbatim>\<open>Execute\<close> captures the goroutine's variables
  \<^verbatim>\<open>contents\<close> and \<^verbatim>\<open>err\<close>: they are the \<open>vars\<close> of its world.
\<close>

definition fetchClosure ::
    "ProviderAdapter \<Rightarrow> string \<Rightarrow> ContentType option \<Rightarrow>
     (Content slice \<times> go_error option) go_func" where
  "fetchClosure providerAdapter query contentType w =
     (case FetchContent providerAdapter query contentType (clock w) of
        ((contents, err), t) \<Rightarrow> (err, \<lparr> clock = t, vars = (contents, err) \<rparr>))"

text \<open>The test by which the goroutine recognises a rejection by the breaker.\<close>

definition isCircuitOpen :: "go_error \<Rightarrow> bool" where
  "isCircuitOpen cbErr = (Error cbErr = ''circuit breaker is open'')"

text \<open>
  The body of one goroutine, from \<^verbatim>\<open>getCircuitBreaker\<close> to what it appends under the
  merge lock: an error for the failure list (\<open>Inl\<close>) or the fetched records (\<open>Inr\<close>).
  \<open>now\<close> is the instant at which it calls \<^verbatim>\<open>Execute\<close>.
\<close>

definition fetchTask ::
    "ProviderService \<Rightarrow> Time \<Rightarrow> string \<Rightarrow> ProviderAdapter \<Rightarrow> string \<Rightarrow> ContentType option \<Rightarrow>
     ProviderService \<times> (go_error + Content slice)" where
  "fetchTask s now providerName providerAdapter query contentType =
     (case getCircuitBreaker s providerName of
        (cb, s1) \<Rightarrow>
          (case Execute (heap s1 ! cb) (fetchClosure providerAdapter query contentType)
                  \<lparr> clock = now, vars = (None, None) \<rparr> of
             (cbErr, cb', w) \<Rightarrow>
               (let s2 = s1\<lparr> heap := (heap s1)[cb := cb'] \<rparr> in
                case cbErr of
                  Some e \<Rightarrow>
                    if isCircuitOpen e
                    then (s2, Inl (ErrorString
                            (''provider '' @ providerName @ '': circuit breaker is open'')))
                    else (s2, Inl (WrapError (''provider '' @ providerName @ '': '' @ Error e) e))
                | None \<Rightarrow> (s2, Inr (fst (vars w))))))"

text \<open>
  The fan-out and the barrier. Tasks of one call belong to different provider names, so
  they work on different breakers and meet only at the merge lock; the list of adapters
  is given in the order in which the goroutines pass it, which Go leaves open (map
  iteration and scheduling), and \<open>now\<close> gives every provider's goroutine its own clock
  reading. A statement for all lists and all \<open>now\<close> covers every schedule.
\<close>

fun runTasks ::
    "ProviderService \<Rightarrow> (string \<Rightarrow> Time) \<Rightarrow> (string \<times> ProviderAdapter) list \<Rightarrow> string \<Rightarrow>
     ContentType option \<Rightarrow> Content slice \<Rightarrow> go_error list \<Rightarrow>
     ProviderService \<times> Content slice \<times> go_error list" where
  "runTasks s now [] query contentType allContents errors = (s, allContents, errors)"
| "runTasks s now ((name, adpt) # rest) query contentType allContents errors =
     (case fetchTask s (now name) name adpt query contentType of
        (s', Inl e) \<Rightarrow> runTasks s' now rest query contentType allContents (errors @ [e])
      | (s', Inr contents) \<Rightarrow>
          runTasks s' now rest query contentType (append_slice allContents contents) errors)"

definition hasNoAdapters :: "(string \<times> ProviderAdapter) list \<Rightarrow> bool" where
  "hasNoAdapters adapters = (length adapters = 0)"

definition allProvidersFailed :: "Content slice \<Rightarrow> go_error list \<Rightarrow> bool" where
  "allProvidersFailed contents errors = (length (elems contents) = 0 \<and> 0 < length errors)"

text \<open>\<^verbatim>\<open>%v\<close> of a slice of errors: the messages, separated by spaces, in brackets.\<close>

fun join_space :: "string list \<Rightarrow> string" where
  "join_space [] = []"
| "join_space [x] = x"
| "join_space (x # y # ys) = x @ '' '' @ join_space (y # ys)"

definition format_errors :: "go_error list \<Rightarrow> string" where
  "format_errors errors = ''['' @ join_space (map Error errors) @ '']''"

definition FetchFromAllProviders ::
    "ProviderService \<Rightarrow> (string \<Rightarrow> Time) \<Rightarrow> (string \<times> ProviderAdapter) list \<Rightarrow> string \<Rightarrow>
     ContentType option \<Rightarrow> ProviderService \<times> Content slice \<times> go_error option" where
  "FetchFromAllProviders s now adapters query contentType =
     (if hasNoAdapters adapters then (s, Some [], None)
      else
        (case runTasks s now adapters query contentType None [] of
           (s', allContents, errors) \<Rightarrow>
             if allProvidersFailed allContents errors
             then (s', None,
                   Some (ErrorString (''all providers failed: '' @ format_errors errors)))
             else (s', allContents, None)))"

subsection \<open>What a provider does in one fan-out\<close>

text \<open>
  The registry is well formed when every stored pointer is allocated and no two names
  share a breaker. The breaker a provider's task will see is the stored one, or a new
  one. It rejects the call when it is open and the reset timeout has not passed. A
  provider succeeds when its breaker admits the call and the adapter returns no error;
  otherwise the cause of its failure is the rejection or the adapter's error, and the
  failure list receives the cause labelled with the provider's name.
\<close>

definition registry_ok :: "ProviderService \<Rightarrow> bool" where
  "registry_ok s =
     ((\<forall>n a. circuitBreakers s n = Some a \<longrightarrow> a < length (heap s)) \<and>
      (\<forall>n m a. circuitBreakers s n = Some a \<and> circuitBreakers s m = Some a \<longrightarrow> n = m))"

definition breakerFor :: "ProviderService \<Rightarrow> string \<Rightarrow> CircuitBreaker" where
  "breakerFor s providerName =
     (case circuitBreakers s providerName of
        Some cb \<Rightarrow> heap s ! cb
      | None \<Rightarrow> NewCircuitBreaker 5 (30 * Second))"

definition rejects :: "CircuitBreaker \<Rightarrow> Time \<Rightarrow> bool" where
  "rejects cb t =
     (state cb = CircuitStateOpen \<and> time_Sub t (lastFailureTime cb) <s resetTimeout cb)"

definition providerSucceeds ::
    "ProviderService \<Rightarrow> (string \<Rightarrow> Time) \<Rightarrow> string \<Rightarrow> ContentType option \<Rightarrow>
     string \<times> ProviderAdapter \<Rightarrow> bool" where
  "providerSucceeds s now query contentType p =
     (\<not> rejects (breakerFor s (fst p)) (now (fst p)) \<and>
      snd (fst (FetchContent (snd p) query contentType (now (fst p)))) = None)"

definition providerRecords ::
    "(string \<Rightarrow> Time) \<Rightarrow> string \<Rightarrow> ContentType option \<Rightarrow> string \<times> ProviderAdapter \<Rightarrow>
     Content slice" where
  "providerRecords now query contentType p =
     fst (fst (FetchContent (snd p) query contentType (now (fst p))))"

definition providerCause ::
    "ProviderService \<Rightarrow> (string \<Rightarrow> Time) \<Rightarrow> string \<Rightarrow> ContentType option \<Rightarrow>
     string \<times> ProviderAdapter \<Rightarrow> go_error" where
  "providerCause s now query contentType p =
     (if rejects (breakerFor s (fst p)) (now (fst p))
      then errors_New ''circuit breaker is open''
      else (case snd (fst (FetchContent (snd p) query contentType (now (fst p)))) of
              Some e \<Rightarrow> e
            | None \<Rightarrow> errors_New []))"

definition labelled :: "string \<Rightarrow> go_error \<Rightarrow> go_error" where
  "labelled providerName cause =
     (if isCircuitOpen cause
      then ErrorString (''provider '' @ providerName @ '': circuit breaker is open'')
      else WrapError (''provider '' @ providerName @ '': '' @ Error cause) cause)"

definition providerFailure ::
    "ProviderService \<Rightarrow> (string \<Rightarrow> Time) \<Rightarrow> string \<Rightarrow> ContentType option \<Rightarrow>
     string \<times> ProviderAdapter \<Rightarrow> go_error" where
  "providerFailure s now query contentType p =
     labelled (fst p) (providerCause s now query contentType p)"

definition succeeded ::
    "ProviderService \<Rightarrow> (string \<Rightarrow> Time) \<Rightarrow> string \<Rightarrow> ContentType option \<Rightarrow>
     (string \<times> ProviderAdapter) list \<Rightarrow> (string \<times> ProviderAdapter) list" where
  "succeeded s now query contentType adapters =
     filter (providerSucceeds s now query contentType) adapters"

definition failed ::
    "ProviderService \<Rightarrow> (string \<Rightarrow> Time) \<Rightarrow> string \<Rightarrow> ContentType option \<Rightarrow>
     (string \<times> ProviderAdapter) list \<Rightarrow> (string \<times> ProviderAdapter) list" where
  "failed s now query contentType adapters =
     filter (\<lambda>p. \<not> providerSucceeds s now query contentType p) adapters"

definition mergedRecords ::
    "ProviderService \<Rightarrow> (string \<Rightarrow> Time) \<Rightarrow> string \<Rightarrow> ContentType option \<Rightarrow>
     (string \<times> ProviderAdapter) list \<Rightarrow> Content list" where
  "mergedRecords s now query contentType adapters =
     concat (map (\<lambda>p. elems (providerRecords now query contentType p))
       (succeeded s now query contentType adapters))"

text \<open>Mock adapters as in the repository's tests, and a fixed clock reading.\<close>

definition mockAdapter :: "string \<Rightarrow> Content slice \<Rightarrow> go_error option \<Rightarrow> ProviderAdapter" where
  "mockAdapter name contents err =
     \<lparr> GetName = name, GetRateLimit = 60,
       FetchContent = (\<lambda>query contentType t.
          ((if err = None then contents else None, err), t)) \<rparr>"

definition atNoon :: "string \<Rightarrow> Time" where
  "atNoon name = 1000"

definition provider1 :: "string \<times> ProviderAdapter" where
  "provider1 = (''provider1'', mockAdapter ''provider1'' (Some [item 1]) None)"

definition provider2 :: "string \<times> ProviderAdapter" where
  "provider2 =
     (''provider2'', mockAdapter ''provider2'' None (Some (errors_New ''provider error'')))"

definition provider3 :: "string \<times> ProviderAdapter" where
  "provider3 = (''provider3'', mockAdapter ''provider3'' (Some []) None)"

text \<open>
  A wrapped call and an adapter whose own error has the text of the breaker's rejection.
\<close>

definition impostorCall :: "nat go_func" where
  "impostorCall w = (Some (errors_New ''circuit breaker is open''), w\<lparr> vars := Suc (vars w) \<rparr>)"

definition impostorProvider :: "string \<times> ProviderAdapter" where
  "impostorProvider =
     (''provider4'',
      mockAdapter ''provider4'' None (Some (errors_New ''circuit breaker is open'')))"

lemmas provider_eval =
  FetchFromAllProviders_def hasNoAdapters_def allProvidersFailed_def fetchTask_def
  getCircuitBreaker_def lookupBreaker_def createBreaker_def storeBreaker_def
  fetchClosure_def isCircuitOpen_def format_errors_def NewProviderService_def
  mockAdapter_def atNoon_def Second_def append_slice_def elems_def
  provider1_def provider2_def provider3_def

lemmas outcome_eval =
  succeeded_def failed_def mergedRecords_def providerSucceeds_def providerRecords_def
  providerCause_def providerFailure_def labelled_def rejects_def breakerFor_def
  isCircuitOpen_def NewProviderService_def NewCircuitBreaker_def mockAdapter_def atNoon_def
  errors_New_def elems_def provider1_def provider2_def provider3_def

subsection \<open>One task\<close>

lemma getCircuitBreaker_breaker:
  "getCircuitBreaker s n = (cb, s1) \<Longrightarrow> heap s1 ! cb = breakerFor s n"
  by (auto simp: getCircuitBreaker_def lookupBreaker_def createBreaker_def storeBreaker_def
      breakerFor_def split: option.splits)

lemma Execute_cases:
  "Execute cb fn w =
     (if state cb = CircuitStateOpen \<and> time_Since w (lastFailureTime cb) <s resetTimeout cb
      then (Some (errors_New ''circuit breaker is open''), cb, w)
      else invoke (if state cb = CircuitStateOpen then transitionToHalfOpen cb else cb) fn w)"
  by (cases "state cb")
    (auto simp: Execute_def getState_def Let_def word_sle_eq word_sless_alt)

lemma fetchTask_outcome:
  "snd (fetchTask s (now n) n adpt query contentType) =
     (if providerSucceeds s now query contentType (n, adpt)
      then Inr (providerRecords now query contentType (n, adpt))
      else Inl (labelled n (providerCause s now query contentType (n, adpt))))"
proof -
  obtain cb s1 where g: "getCircuitBreaker s n = (cb, s1)" by (cases "getCircuitBreaker s n")
  note b = getCircuitBreaker_breaker [OF g]
  obtain contents err t where f: "FetchContent adpt query contentType (now n) = ((contents, err), t)"
    by (metis surj_pair)
  show ?thesis
  proof (cases "rejects (breakerFor s n) (now n)")
    case True
    then show ?thesis
      using g b
      by (simp add: fetchTask_def Execute_cases rejects_def time_Since_def providerSucceeds_def
          providerCause_def labelled_def isCircuitOpen_def errors_New_def)
  next
    case False
    then show ?thesis
      using g b f
      by (cases err)
        (auto simp: fetchTask_def Execute_cases rejects_def time_Since_def providerSucceeds_def
          providerCause_def providerRecords_def labelled_def invoke_def fetchClosure_def Let_def)
  qed
qed

lemma fetchTask_state:
  "\<exists>cb'. fst (fetchTask s t n adpt query contentType) =
     (snd (getCircuitBreaker s n))\<lparr> heap :=
        (heap (snd (getCircuitBreaker s n)))[fst (getCircuitBreaker s n) := cb'] \<rparr>"
proof -
  obtain cb s1 where g: "getCircuitBreaker s n = (cb, s1)" by (cases "getCircuitBreaker s n")
  obtain e cb' w where x: "Execute (heap s1 ! cb) (fetchClosure adpt query contentType)
      \<lparr> clock = t, vars = (None, None) \<rparr> = (e, cb', w)"
    by (metis surj_pair)
  show ?thesis using g x
    by (auto simp: fetchTask_def Let_def split: option.splits)
qed

lemma registry_ok_New: "registry_ok NewProviderService"
  by (simp add: registry_ok_def NewProviderService_def)

lemma registry_ok_getCircuitBreaker:
  assumes "registry_ok s"
  shows "registry_ok (snd (getCircuitBreaker s n)) \<and>
         circuitBreakers (snd (getCircuitBreaker s n)) n = Some (fst (getCircuitBreaker s n)) \<and>
         (\<forall>m. m \<noteq> n \<longrightarrow>
            circuitBreakers (snd (getCircuitBreaker s n)) m = circuitBreakers s m \<and>
            breakerFor (snd (getCircuitBreaker s n)) m = breakerFor s m)"
proof (cases "circuitBreakers s n")
  case (Some a)
  with assms show ?thesis
    by (simp add: getCircuitBreaker_def lookupBreaker_def)
next
  case None
  have v: "a < length (heap s)" if "circuitBreakers s m = Some a" for m a
    using assms that by (auto simp: registry_ok_def)
  have i: "m = m'" if "circuitBreakers s m = Some a" "circuitBreakers s m' = Some a" for m m' a
    using assms that unfolding registry_ok_def by blast
  let ?s = "s\<lparr> heap := heap s @ [NewCircuitBreaker 5 (30 * Second)],
                circuitBreakers := (circuitBreakers s)(n \<mapsto> length (heap s)) \<rparr>"
  have eq: "getCircuitBreaker s n = (length (heap s), ?s)"
    using None by (simp add: getCircuitBreaker_def lookupBreaker_def createBreaker_def
        storeBreaker_def)
  have "registry_ok ?s"
    unfolding registry_ok_def using v i by (auto simp: less_Suc_eq split: if_splits)
  moreover have "breakerFor ?s m = breakerFor s m" if "m \<noteq> n" for m
    using that v [of m] by (auto simp: breakerFor_def nth_append split: option.splits)
  ultimately show ?thesis using eq by simp
qed

lemma fetchTask_frame:
  assumes "registry_ok s"
  shows "registry_ok (fst (fetchTask s t n adpt query contentType)) \<and>
         (\<forall>m. m \<noteq> n \<longrightarrow> breakerFor (fst (fetchTask s t n adpt query contentType)) m = breakerFor s m)"
proof -
  let ?g = "getCircuitBreaker s n"
  note g = registry_ok_getCircuitBreaker [OF assms, of n]
  obtain cb' where st: "fst (fetchTask s t n adpt query contentType) =
      (snd ?g)\<lparr> heap := (heap (snd ?g))[fst ?g := cb'] \<rparr>"
    using fetchTask_state by blast
  have ok1: "registry_ok (snd ?g)" and reg: "circuitBreakers (snd ?g) n = Some (fst ?g)"
    using g by simp_all
  have ok2: "registry_ok ((snd ?g)\<lparr> heap := (heap (snd ?g))[fst ?g := cb'] \<rparr>)"
    using ok1 by (simp add: registry_ok_def)
  have "breakerFor ((snd ?g)\<lparr> heap := (heap (snd ?g))[fst ?g := cb'] \<rparr>) m = breakerFor s m"
    if "m \<noteq> n" for m
  proof -
    have "breakerFor ((snd ?g)\<lparr> heap := (heap (snd ?g))[fst ?g := cb'] \<rparr>) m =
        breakerFor (snd ?g) m"
    proof (cases "circuitBreakers (snd ?g) m")
      case None
      then show ?thesis by (simp add: breakerFor_def)
    next
      case (Some a)
      with reg that ok1 have "a \<noteq> fst ?g" unfolding registry_ok_def by blast
      with Some show ?thesis by (simp add: breakerFor_def)
    qed
    with g that show ?thesis by simp
  qed
  with ok2 st show ?thesis by simp
qed

lemma frame_rest:
  assumes "\<forall>m. m \<noteq> n \<longrightarrow> breakerFor s1 m = breakerFor s m" "n \<notin> fst ` set rest"
  shows "succeeded s1 now q ct rest = succeeded s now q ct rest"
    and "failed s1 now q ct rest = failed s now q ct rest"
    and "map (providerFailure s1 now q ct) (failed s now q ct rest) =
         map (providerFailure s now q ct) (failed s now q ct rest)"
proof -
  have ne: "fst p \<noteq> n" if "p \<in> set rest" for p
    using assms(2) that by (auto simp: image_iff)
  have b: "breakerFor s1 (fst p) = breakerFor s (fst p)" if "p \<in> set rest" for p
    using assms(1) [rule_format, OF ne [OF that]] .
  have ps: "providerSucceeds s1 now q ct p = providerSucceeds s now q ct p"
    if "p \<in> set rest" for p
    by (simp add: providerSucceeds_def b [OF that])
  have pf: "providerFailure s1 now q ct p = providerFailure s now q ct p"
    if "p \<in> set rest" for p
    by (simp add: providerFailure_def providerCause_def b [OF that])
  show "succeeded s1 now q ct rest = succeeded s now q ct rest"
    unfolding succeeded_def by (rule filter_cong [OF refl]) (rule ps)
  show "failed s1 now q ct rest = failed s now q ct rest"
    unfolding failed_def by (rule filter_cong [OF refl]) (simp add: ps)
  show "map (providerFailure s1 now q ct) (failed s now q ct rest) =
         map (providerFailure s now q ct) (failed s now q ct rest)"
    by (rule map_cong [OF refl]) (simp add: failed_def pf)
qed

subsection \<open>The fan-out\<close>

lemma runTasks_Cons:
  "runTasks s now ((n, adpt) # rest) q ct acc errs =
     (case snd (fetchTask s (now n) n adpt q ct) of
        Inl e \<Rightarrow> runTasks (fst (fetchTask s (now n) n adpt q ct)) now rest q ct acc (errs @ [e])
      | Inr c \<Rightarrow>
          runTasks (fst (fetchTask s (now n) n adpt q ct)) now rest q ct (append_slice acc c) errs)"
  by (simp split: prod.splits sum.splits)

lemma runTasks_char:
  assumes "registry_ok s" "distinct (map fst adapters)"
  shows "registry_ok (fst (runTasks s now adapters q ct acc errs)) \<and>
     snd (runTasks s now adapters q ct acc errs) =
       (foldl append_slice acc (map (providerRecords now q ct) (succeeded s now q ct adapters)),
        errs @ map (providerFailure s now q ct) (failed s now q ct adapters))"
  using assms
proof (induction adapters arbitrary: s acc errs)
  case Nil
  then show ?case by (simp add: succeeded_def failed_def)
next
  case (Cons p rest)
  obtain n adpt where p: "p = (n, adpt)" by (cases p)
  let ?t = "fetchTask s (now n) n adpt q ct"
  from Cons.prems p have d: "n \<notin> fst ` set rest" and dr: "distinct (map fst rest)" by auto
  note fr = fetchTask_frame [OF Cons.prems(1), of "now n" n adpt q ct]
  then have ok1: "registry_ok (fst ?t)"
    and b: "\<forall>m. m \<noteq> n \<longrightarrow> breakerFor (fst ?t) m = breakerFor s m" by simp_all
  note rest_eq = frame_rest [OF b d, of now q ct]
  note out = fetchTask_outcome [of s now n adpt q ct]
  show ?case
  proof (cases "providerSucceeds s now q ct (n, adpt)")
    case True
    let ?c = "providerRecords now q ct (n, adpt)"
    have step: "runTasks s now (p # rest) q ct acc errs =
        runTasks (fst ?t) now rest q ct (append_slice acc ?c) errs"
      unfolding p runTasks_Cons out using True by simp
    have su: "succeeded s now q ct (p # rest) = p # succeeded s now q ct rest"
      and fa: "failed s now q ct (p # rest) = failed s now q ct rest"
      using True p by (simp_all add: succeeded_def failed_def)
    note ih = Cons.IH [OF ok1 dr, of "append_slice acc ?c" errs]
    show ?thesis
      unfolding step su fa using ih p unfolding rest_eq by simp
  next
    case False
    let ?e = "providerFailure s now q ct (n, adpt)"
    have step: "runTasks s now (p # rest) q ct acc errs =
        runTasks (fst ?t) now rest q ct acc (errs @ [?e])"
      unfolding p runTasks_Cons out using False by (simp add: providerFailure_def)
    have su: "succeeded s now q ct (p # rest) = succeeded s now q ct rest"
      and fa: "failed s now q ct (p # rest) = p # failed s now q ct rest"
      using False p by (simp_all add: succeeded_def failed_def)
    note ih = Cons.IH [OF ok1 dr, of acc "errs @ [?e]"]
    show ?thesis
      unfolding step su fa using ih p unfolding rest_eq by simp
  qed
qed

lemma append_slice_cases:
  "(case append_slice acc t of
      None \<Rightarrow> (if ys = [] then None else Some ys)
    | Some xs \<Rightarrow> Some (xs @ ys)) =
   (case acc of
      None \<Rightarrow> (if elems t @ ys = [] then None else Some (elems t @ ys))
    | Some xs \<Rightarrow> Some (xs @ elems t @ ys))"
  by (cases acc; cases "elems t = []") (simp_all add: append_slice_def)

lemma foldl_append_slice:
  "foldl append_slice acc (map f ps) =
     (case acc of
        None \<Rightarrow> (if concat (map (\<lambda>p. elems (f p)) ps) = [] then None
                  else Some (concat (map (\<lambda>p. elems (f p)) ps)))
      | Some xs \<Rightarrow> Some (xs @ concat (map (\<lambda>p. elems (f p)) ps)))"
proof (induction ps arbitrary: acc)
  case Nil
  then show ?case by (simp split: option.splits)
next
  case (Cons p ps)
  have "foldl append_slice acc (map f (p # ps)) = foldl append_slice (append_slice acc (f p)) (map f ps)"
    by simp
  also have "\<dots> = (case acc of
        None \<Rightarrow> (if elems (f p) @ concat (map (\<lambda>p. elems (f p)) ps) = [] then None
                  else Some (elems (f p) @ concat (map (\<lambda>p. elems (f p)) ps)))
      | Some xs \<Rightarrow> Some (xs @ elems (f p) @ concat (map (\<lambda>p. elems (f p)) ps)))"
    unfolding Cons.IH by (rule append_slice_cases)
  also have "\<dots> = (case acc of
        None \<Rightarrow> (if concat (map (\<lambda>p. elems (f p)) (p # ps)) = [] then None
                  else Some (concat (map (\<lambda>p. elems (f p)) (p # ps))))
      | Some xs \<Rightarrow> Some (xs @ concat (map (\<lambda>p. elems (f p)) (p # ps))))"
    by (simp only: list.map concat.simps)
  finally show ?case .
qed

lemma FetchFromAllProviders_char:
  assumes "registry_ok s" "distinct (map fst adapters)"
  shows "registry_ok (fst (FetchFromAllProviders s now adapters q ct)) \<and>
     snd (FetchFromAllProviders s now adapters q ct) =
       (if adapters = [] then (Some [], None)
        else if mergedRecords s now q ct adapters = [] \<and> failed s now q ct adapters \<noteq> []
        then (None, Some (ErrorString (''all providers failed: '' @
                format_errors (map (providerFailure s now q ct) (failed s now q ct adapters)))))
        else (if mergedRecords s now q ct adapters = [] then None
              else Some (mergedRecords s now q ct adapters), None))"
proof (cases "adapters = []")
  case True
  with assms show ?thesis by (simp add: FetchFromAllProviders_def hasNoAdapters_def)
next
  case False
  let ?r = "runTasks s now adapters q ct None []"
  note c = runTasks_char [OF assms, of now q ct None "[]"]
  have c': "snd ?r =
      (if mergedRecords s now q ct adapters = [] then None
       else Some (mergedRecords s now q ct adapters),
       map (providerFailure s now q ct) (failed s now q ct adapters))"
    using c unfolding foldl_append_slice mergedRecords_def [symmetric] by simp
  obtain s' allContents errors where r: "?r = (s', allContents, errors)"
    by (metis surj_pair)
  with c c' have ok: "registry_ok s'"
    and ac: "allContents = (if mergedRecords s now q ct adapters = [] then None
               else Some (mergedRecords s now q ct adapters))"
    and er: "errors = map (providerFailure s now q ct) (failed s now q ct adapters)"
    by simp_all
  show ?thesis
    using False ok
    by (simp add: FetchFromAllProviders_def hasNoAdapters_def r allProvidersFailed_def ac er
        elems_def)
qed

text \<open>The merged records as a union: their multiset does not depend on the merge order.\<close>

lemma mset_concat_filter:
  "mset (concat (map f (filter P xs))) =
     (\<Sum>x \<in># filter_mset P (mset xs). mset (f x))"
  by (induction xs) simp_all

lemma mset_mergedRecords:
  "mset (mergedRecords s now q ct adapters) =
     (\<Sum>p \<in># filter_mset (providerSucceeds s now q ct) (mset adapters).
        mset (elems (providerRecords now q ct p)))"
  unfolding mergedRecords_def succeeded_def by (rule mset_concat_filter)

lemma registry_ok_FetchFromAllProviders:
  "registry_ok s \<Longrightarrow> distinct (map fst adapters) \<Longrightarrow>
   registry_ok (fst (FetchFromAllProviders s now adapters query contentType))"
  by (simp add: FetchFromAllProviders_char)

subsection \<open>The text of the aggregate error\<close>

lemma sublist_join_space: "x \<in> set xs \<Longrightarrow> sublist x (join_space xs)"
proof (induction xs rule: join_space.induct)
  case 1
  then show ?case by simp
next
  case (2 y)
  then show ?case by simp
next
  case (3 y z zs)
  show ?case
  proof (cases "x = y")
    case True
    then show ?thesis by simp
  next
    case False
    with 3 have "sublist x (join_space (z # zs))" by simp
    then obtain ps ss where "join_space (z # zs) = ps @ x @ ss" by (auto simp: sublist_def)
    then have "join_space (y # z # zs) = (y @ '' '' @ ps) @ x @ ss" by simp
    then show ?thesis unfolding sublist_def by blast
  qed
qed

lemma sublist_format_errors:
  assumes "e \<in> set errors"
  shows "sublist (Error e) (''all providers failed: '' @ format_errors errors)"
proof -
  have "sublist (Error e) (join_space (map Error errors))"
    using assms by (intro sublist_join_space) simp
  then obtain ps ss where "join_space (map Error errors) = ps @ Error e @ ss"
    by (auto simp: sublist_def)
  then have "''all providers failed: '' @ format_errors errors =
      (''all providers failed: ['' @ ps) @ Error e @ (ss @ '']'')"
    by (simp add: format_errors_def)
  then show ?thesis unfolding sublist_def by blast
qed

lemma Error_labelled:
  "Error (labelled n cause) = ''provider '' @ n @ '': '' @ Error cause"
  by (simp add: labelled_def isCircuitOpen_def)

subsection \<open>A lone caller of getCircuitBreaker\<close>

lemma getCircuitBreaker_steps:
  "interleave s [(n, AtLookup)] [0, 0, 0] =
     (snd (getCircuitBreaker s n), [(n, Returned (fst (getCircuitBreaker s n)))])"
  by (simp add: getCircuitBreaker_def createBreaker_def split: option.splits)

subsection \<open>Claims about ProviderService\<close>

text \<open>
  C9. With no provider registered, \<^verbatim>\<open>FetchFromAllProviders\<close> returns the empty, non-nil
  record set and a nil error, whatever the query and the type filter, and leaves the
  service as it was.
\<close>

theorem no_providers_empty_result:
  "FetchFromAllProviders s now [] query contentType = (s, Some [], None)"
  by (simp add: FetchFromAllProviders_def hasNoAdapters_def)

text \<open>
  C2. \<^verbatim>\<open>FetchFromAllProviders\<close> returns an error exactly when the merged records of the
  providers that succeeded are empty and at least one provider failed. Then the returned
  record set is nil, and for every provider that failed the text of the error holds the
  provider's name followed by the text of its cause.
\<close>

theorem aggregate_error_iff:
  assumes "registry_ok s" "distinct (map fst adapters)"
    and "FetchFromAllProviders s now adapters query contentType = (s', records, err)"
  shows "(err \<noteq> None \<longleftrightarrow>
            mergedRecords s now query contentType adapters = [] \<and>
            failed s now query contentType adapters \<noteq> []) \<and>
         (err \<noteq> None \<longrightarrow>
            records = None \<and>
            (\<exists>e. err = Some e \<and>
               (\<forall>p \<in> set (failed s now query contentType adapters).
                  sublist (''provider '' @ fst p @ '': '' @
                           Error (providerCause s now query contentType p)) (Error e))))"
proof -
  let ?f = "failed s now query contentType adapters"
  let ?m = "mergedRecords s now query contentType adapters"
  let ?errs = "map (providerFailure s now query contentType) ?f"
  note c = FetchFromAllProviders_char [OF assms(1,2), of now query contentType]
  have fe: "?f = []" if "adapters = []" using that by (simp add: failed_def)
  show ?thesis
  proof (cases "?m = [] \<and> ?f \<noteq> []")
    case True
    then have ne: "adapters \<noteq> []" using fe by blast
    from c True ne assms(3) have r: "records = None"
      and e: "err = Some (ErrorString (''all providers failed: '' @ format_errors ?errs))"
      by simp_all
    have "sublist (''provider '' @ fst p @ '': '' @ Error (providerCause s now query contentType p))
        (''all providers failed: '' @ format_errors ?errs)" if "p \<in> set ?f" for p
    proof -
      have "providerFailure s now query contentType p \<in> set ?errs" using that by simp
      from sublist_format_errors [OF this] show ?thesis
        by (simp add: providerFailure_def Error_labelled)
    qed
    with True r e show ?thesis by simp
  next
    case False
    with c assms(3) have "err = None" by (auto split: if_splits)
    with False show ?thesis by simp
  qed
qed

theorem aggregate_error_iff_witness:
  "mergedRecords NewProviderService atNoon ''test'' None [provider3, provider2] = [] \<and>
   map fst (failed NewProviderService atNoon ''test'' None [provider3, provider2]) =
     [''provider2''] \<and>
   providerCause NewProviderService atNoon ''test'' None provider2 =
     ErrorString ''provider error'' \<and>
   fst (snd (FetchFromAllProviders NewProviderService atNoon [provider3, provider2] ''test'' None))
     = None \<and>
   (\<exists>e. snd (snd (FetchFromAllProviders NewProviderService atNoon [provider3, provider2]
                ''test'' None)) = Some e \<and>
        sublist ''provider provider2: provider error'' (Error e))"
proof -
  let ?r = "FetchFromAllProviders NewProviderService atNoon [provider3, provider2] ''test'' None"
  have d: "distinct (map fst [provider3, provider2])"
    by (simp add: provider3_def provider2_def)
  have e: "mergedRecords NewProviderService atNoon ''test'' None [provider3, provider2] = [] \<and>
      failed NewProviderService atNoon ''test'' None [provider3, provider2] = [provider2] \<and>
      providerCause NewProviderService atNoon ''test'' None provider2 =
        ErrorString ''provider error'' \<and> fst provider2 = ''provider2''"
    by (simp add: outcome_eval)
  have r: "?r = (fst ?r, fst (snd ?r), snd (snd ?r))" by simp
  show ?thesis
    using e aggregate_error_iff [OF registry_ok_New d r] by auto
qed

text \<open>
  C1, as the code has it. When at least one provider succeeds, and either no provider
  fails or the providers that succeeded returned at least one record between them,
  \<^verbatim>\<open>FetchFromAllProviders\<close> returns a nil error and the records of the providers that
  succeeded, concatenated in the order in which their goroutines merged them (the nil
  slice when there are none); as a multiset this is the union of the record lists of the
  providers that succeeded, whatever the order.
\<close>

theorem partial_success_returns_union:
  assumes "registry_ok s" "distinct (map fst adapters)"
    and "succeeded s now query contentType adapters \<noteq> []"
    and "failed s now query contentType adapters = [] \<or>
         mergedRecords s now query contentType adapters \<noteq> []"
  shows "snd (FetchFromAllProviders s now adapters query contentType) =
     (if mergedRecords s now query contentType adapters = [] then None
      else Some (mergedRecords s now query contentType adapters), None) \<and>
     mset (elems (fst (snd (FetchFromAllProviders s now adapters query contentType)))) =
       (\<Sum>p \<in># filter_mset (providerSucceeds s now query contentType) (mset adapters).
          mset (elems (providerRecords now query contentType p)))"
proof -
  have "adapters \<noteq> []" using assms(3) by (auto simp: succeeded_def)
  with FetchFromAllProviders_char [OF assms(1,2), of now query contentType] assms(4)
  have r: "snd (FetchFromAllProviders s now adapters query contentType) =
     (if mergedRecords s now query contentType adapters = [] then None
      else Some (mergedRecords s now query contentType adapters), None)"
    by auto
  then have "elems (fst (snd (FetchFromAllProviders s now adapters query contentType))) =
      mergedRecords s now query contentType adapters"
    by (simp add: elems_def)
  with r show ?thesis by (simp only: mset_mergedRecords simp_thms)
qed

theorem partial_success_returns_union_witness:
  "map fst (succeeded NewProviderService atNoon ''test'' None [provider1, provider2]) =
     [''provider1''] \<and>
   map fst (failed NewProviderService atNoon ''test'' None [provider1, provider2]) =
     [''provider2''] \<and>
   mergedRecords NewProviderService atNoon ''test'' None [provider1, provider2] = [item 1] \<and>
   snd (FetchFromAllProviders NewProviderService atNoon [provider1, provider2] ''test'' None) =
     (Some [item 1], None)"
proof -
  have d: "distinct (map fst [provider1, provider2])"
    by (simp add: provider1_def provider2_def)
  have e: "map fst (succeeded NewProviderService atNoon ''test'' None [provider1, provider2]) =
       [''provider1''] \<and>
     map fst (failed NewProviderService atNoon ''test'' None [provider1, provider2]) =
       [''provider2''] \<and>
     mergedRecords NewProviderService atNoon ''test'' None [provider1, provider2] = [item 1]"
    by (simp add: outcome_eval)
  then have h3: "succeeded NewProviderService atNoon ''test'' None [provider1, provider2] \<noteq> []"
    and h4: "failed NewProviderService atNoon ''test'' None [provider1, provider2] = [] \<or>
         mergedRecords NewProviderService atNoon ''test'' None [provider1, provider2] \<noteq> []"
    by auto
  show ?thesis
    using e partial_success_returns_union [OF registry_ok_New d h3 h4] by simp
qed

text \<open>
  C1 as stated fails where every provider that succeeds returns zero records and some
  provider fails: of two providers, one returns an empty list and no error and the other
  an error; the call returns nil records and the aggregate error.
\<close>

theorem zero_record_success_with_failure_is_error:
  "map fst (succeeded NewProviderService atNoon ''test'' None [provider3, provider2]) =
     [''provider3''] \<and>
   map fst (failed NewProviderService atNoon ''test'' None [provider3, provider2]) =
     [''provider2''] \<and>
   providerRecords atNoon ''test'' None provider3 = Some [] \<and>
   snd (FetchFromAllProviders NewProviderService atNoon [provider3, provider2] ''test'' None) =
     (None, Some (ErrorString ''all providers failed: [provider provider2: provider error]''))"
  by (simp add: outcome_eval) (simp add: provider_eval breaker_eval)

text \<open>
  C5, as the code has it. \<^verbatim>\<open>Execute\<close> returns the error "circuit breaker is open"
  without invoking the wrapped function when the breaker rejects, and otherwise invokes
  it and returns its error unchanged. The caller tells the two apart by the text of the
  error: a rejection is always recognised as one, and the error of a wrapped call is
  recognised as a call failure whenever its text is not "circuit breaker is open".
\<close>

theorem execute_error_classification:
  "(rejects cb (clock w) \<longrightarrow>
      Execute cb fn w = (Some (errors_New ''circuit breaker is open''), cb, w) \<and>
      isCircuitOpen (errors_New ''circuit breaker is open'')) \<and>
   (\<not> rejects cb (clock w) \<longrightarrow>
      fst (Execute cb fn w) = fst (fn w) \<and>
      snd (snd (Execute cb fn w)) = snd (fn w) \<and>
      (\<forall>e. fst (fn w) = Some e \<and> Error e \<noteq> ''circuit breaker is open'' \<longrightarrow>
           \<not> isCircuitOpen e))"
  by (simp add: Execute_cases rejects_def time_Since_def invoke_result isCircuitOpen_def
      errors_New_def)

theorem execute_error_classification_witness:
  "rejects trippedBreaker 1000005000 \<and>
   Execute trippedBreaker failingCall \<lparr> clock = 1000005000, vars = 5 \<rparr> =
     (Some (errors_New ''circuit breaker is open''), trippedBreaker,
      \<lparr> clock = 1000005000, vars = 5 \<rparr>) \<and>
   isCircuitOpen (errors_New ''circuit breaker is open'') \<and>
   \<not> rejects (NewCircuitBreaker 5 (30 * Second)) 1000 \<and>
   fst (Execute (NewCircuitBreaker 5 (30 * Second)) failingCall \<lparr> clock = 1000, vars = 0 \<rparr>) =
     Some (errors_New ''provider error'') \<and>
   snd (snd (Execute (NewCircuitBreaker 5 (30 * Second)) failingCall \<lparr> clock = 1000, vars = 0 \<rparr>)) =
     \<lparr> clock = 1000, vars = 1 \<rparr> \<and>
   \<not> isCircuitOpen (errors_New ''provider error'')"
proof -
  have t: "state trippedBreaker = CircuitStateOpen \<and> lastFailureTime trippedBreaker = 5000 \<and>
      resetTimeout trippedBreaker = 30000000000"
    by (simp add: trippedBreaker_def fiveFailures_def breaker_eval)
  then have r: "rejects trippedBreaker 1000005000"
    by (simp add: rejects_def time_Sub_def maxDuration_def minDuration_def word_sless_alt)
  have n: "\<not> rejects (NewCircuitBreaker 5 (30 * Second)) 1000"
    by (simp add: rejects_def NewCircuitBreaker_def)
  have f: "failingCall \<lparr> clock = 1000, vars = 0 \<rparr> =
      (Some (errors_New ''provider error''), \<lparr> clock = 1000, vars = 1 \<rparr>)"
    by (simp add: failingCall_def)
  show ?thesis
    using r n f
      execute_error_classification [of trippedBreaker "\<lparr> clock = 1000005000, vars = 5 \<rparr>" failingCall]
      execute_error_classification [of "NewCircuitBreaker 5 (30 * Second)"
        "\<lparr> clock = 1000, vars = 0 \<rparr>" failingCall]
    by (simp add: isCircuitOpen_def errors_New_def)
qed

text \<open>
  C5 as stated fails for a wrapped call whose own error has that text: a closed breaker
  invokes the call (its counter moves from 0 to 1), counts a failure and returns the
  call's error, the caller's test takes it for a rejection, and the failure list records
  "circuit breaker is open" for a provider that was called.
\<close>

theorem call_failure_classified_as_rejection:
  "\<not> rejects (NewCircuitBreaker 5 (30 * Second)) 1000 \<and>
   fst (Execute (NewCircuitBreaker 5 (30 * Second)) impostorCall \<lparr> clock = 1000, vars = 0 \<rparr>) =
     fst (impostorCall \<lparr> clock = 1000, vars = 0 \<rparr>) \<and>
   snd (snd (Execute (NewCircuitBreaker 5 (30 * Second)) impostorCall
      \<lparr> clock = 1000, vars = 0 \<rparr>)) = \<lparr> clock = 1000, vars = 1 \<rparr> \<and>
   failureCount (fst (snd (Execute (NewCircuitBreaker 5 (30 * Second)) impostorCall
      \<lparr> clock = 1000, vars = 0 \<rparr>))) = 1 \<and>
   fst (impostorCall \<lparr> clock = 1000, vars = 0 \<rparr>) = Some (ErrorString ''circuit breaker is open'') \<and>
   isCircuitOpen (ErrorString ''circuit breaker is open'') \<and>
   snd (fetchTask NewProviderService 1000 ''provider4'' (snd impostorProvider) ''test'' None) =
     Inl (ErrorString ''provider provider4: circuit breaker is open'')"
  by (simp add: impostorCall_def impostorProvider_def provider_eval breaker_eval rejects_def)

text \<open>
  C6. Two callers ask for the breaker of the same unseen provider name. When their
  critical sections alternate, both lookups miss, both callers create a breaker, both
  store theirs, and they return two different breakers (pointers 0 and 1), of which the
  map keeps the second. When one caller finishes before the other starts, both return
  the same breaker.
\<close>

theorem concurrent_first_callers_get_two_breakers:
  "map snd (snd (interleave NewProviderService
      [(''provider1'', AtLookup), (''provider1'', AtLookup)] [0, 1, 0, 1, 0, 1])) =
     [Returned 0, Returned 1] \<and>
   circuitBreakers (fst (interleave NewProviderService
      [(''provider1'', AtLookup), (''provider1'', AtLookup)] [0, 1, 0, 1, 0, 1])) ''provider1'' =
     Some 1 \<and>
   length (heap (fst (interleave NewProviderService
      [(''provider1'', AtLookup), (''provider1'', AtLookup)] [0, 1, 0, 1, 0, 1]))) = 2 \<and>
   map snd (snd (interleave NewProviderService
      [(''provider1'', AtLookup), (''provider1'', AtLookup)] [0, 0, 0, 1, 1, 1])) =
     [Returned 0, Returned 0]"
  by (simp add: NewProviderService_def lookupBreaker_def createBreaker_def storeBreaker_def)

end
